theory Spec2Isabelle
  imports Main "HOL-Library.AList"
begin

section \<open>Data model\<close>

text \<open>
  The source keeps a step's status as one of six strings. The embedding uses an
  enumeration and \<open>status_name\<close> for the text that the condition evaluator compares.
\<close>

datatype status = PENDING | READY | RUNNING | SUCCESS | FAILED | SKIPPED

fun status_name :: "status \<Rightarrow> string" where
  "status_name PENDING = ''PENDING''"
| "status_name READY = ''READY''"
| "status_name RUNNING = ''RUNNING''"
| "status_name SUCCESS = ''SUCCESS''"
| "status_name FAILED = ''FAILED''"
| "status_name SKIPPED = ''SKIPPED''"

text \<open>Class \<open>Step\<close>. The field \<open>id\<close> is called \<open>step_id\<close> here.\<close>

record step =
  step_id :: string
  command :: string
  dependencies :: "string list"
  condition :: "string option"
  failure_strategy :: "string option"
  parallel_with :: "string list"
  status :: status
  retry_count :: nat

text \<open>\<open>Step.__init__\<close>\<close>

definition new_step :: "string \<Rightarrow> string \<Rightarrow> step" where
  "new_step sid cmd =
     \<lparr>step_id = sid, command = cmd, dependencies = [], condition = None,
      failure_strategy = None, parallel_with = [], status = PENDING, retry_count = 0\<rparr>"

text \<open>
  Class \<open>Workflow\<close>. Both dictionaries are association lists in insertion order, which
  is the order a Python dictionary iterates in. Assigning to a key that is present
  replaces the value in place, assigning to a new key appends (\<open>AList.update\<close>).
\<close>

record workflow =
  name :: string
  steps :: "(string \<times> step) list"
  inverse_dependencies :: "(string \<times> string list) list"

definition new_workflow :: "string \<Rightarrow> workflow" where
  "new_workflow n = \<lparr>name = n, steps = [], inverse_dependencies = []\<rparr>"

definition add_step :: "step \<Rightarrow> workflow \<Rightarrow> workflow" where
  "add_step s w =
     w\<lparr>steps := AList.update (step_id s) s (steps w),
       inverse_dependencies := AList.update (step_id s) [] (inverse_dependencies w)\<rparr>"

text \<open>
  \<open>Workflow.add_dependency\<close>: both lists are extended in place; nothing happens when
  one of the two ids is unknown. \<open>inverse_dependencies[dependency_id]\<close> is present
  whenever \<open>dependency_id\<close> is a key of \<open>steps\<close>, since \<open>add_step\<close> sets both.
\<close>

definition add_dependency :: "string \<Rightarrow> string \<Rightarrow> workflow \<Rightarrow> workflow" where
  "add_dependency dependent_id dependency_id w =
     (if map_of (steps w) dependent_id \<noteq> None \<and> map_of (steps w) dependency_id \<noteq> None
      then w\<lparr>steps := AList.map_entry dependent_id
                         (\<lambda>s. s\<lparr>dependencies := dependencies s @ [dependency_id]\<rparr>) (steps w),
             inverse_dependencies := AList.map_entry dependency_id
                         (\<lambda>ds. ds @ [dependent_id]) (inverse_dependencies w)\<rparr>
      else w)"

section \<open>String operations of the condition evaluator\<close>

text \<open>
  Strings are lists of characters, and a character is a code point below 256; text with
  other code points is outside the model. \<open>is_space\<close> is \<open>str.isspace\<close> on this range:
  tab to carriage return, the four separators \<open>0x1C\<close> to \<open>0x1F\<close>, blank, next line
  \<open>0x85\<close> and no-break space \<open>0xA0\<close>. It is the whitespace of \<open>str.split()\<close>,
  \<open>str.strip()\<close> and \<open>int\<close>. \<open>py_lower\<close> is \<open>str.lower\<close> on this range: the letters
  \<open>A\<close> to \<open>Z\<close> and the capital letters \<open>0xC0\<close> to \<open>0xDE\<close> other than the multiplication
  sign \<open>0xD7\<close> move up by 32.
\<close>

definition is_space :: "char \<Rightarrow> bool" where
  "is_space c =
     (let n = of_char c :: nat
      in (9 \<le> n \<and> n \<le> 13) \<or> (28 \<le> n \<and> n \<le> 32) \<or> n = 133 \<or> n = 160)"

definition lower_char :: "char \<Rightarrow> char" where
  "lower_char c =
     (let n = of_char c :: nat
      in if (65 \<le> n \<and> n \<le> 90) \<or> (192 \<le> n \<and> n \<le> 222 \<and> n \<noteq> 215)
         then char_of (n + 32) else c)"

definition py_lower :: "string \<Rightarrow> string" where
  "py_lower s = map lower_char s"

text \<open>\<open>s.replace("==", " == ")\<close>: occurrences are found left to right and do not overlap.\<close>

fun replace_eqeq :: "string \<Rightarrow> string" where
  "replace_eqeq [] = []"
| "replace_eqeq [a] = [a]"
| "replace_eqeq (a # b # xs) =
     (if a = CHR ''='' \<and> b = CHR ''='' then '' == '' @ replace_eqeq xs
      else a # replace_eqeq (b # xs))"

text \<open>
  \<open>s.split()\<close>: the maximal runs of non-whitespace characters. \<open>split_acc cur s\<close> reads
  \<open>s\<close> with the characters of the current run in \<open>cur\<close>.
\<close>

fun split_acc :: "string \<Rightarrow> string \<Rightarrow> string list" where
  "split_acc cur [] = (if cur = [] then [] else [cur])"
| "split_acc cur (c # cs) =
     (if is_space c then (if cur = [] then split_acc [] cs else cur # split_acc [] cs)
      else split_acc (cur @ [c]) cs)"

definition py_split :: "string \<Rightarrow> string list" where
  "py_split s = split_acc [] s"

text \<open>\<open>s.strip(chars)\<close>\<close>

definition py_strip :: "char list \<Rightarrow> string \<Rightarrow> string" where
  "py_strip chars s =
     rev (dropWhile (\<lambda>c. c \<in> set chars) (rev (dropWhile (\<lambda>c. c \<in> set chars) s)))"

text \<open>\<open>s.startswith(p)\<close>\<close>

definition startswith :: "string \<Rightarrow> string \<Rightarrow> bool" where
  "startswith p s = (take (length p) s = p)"

text \<open>
  \<open>s.split("_", 1)[1]\<close>: what follows the first underscore. It is only called on a
  string that starts with \<open>status_\<close> or \<open>result_\<close>, so an underscore is there.
\<close>

definition after_underscore :: "string \<Rightarrow> string" where
  "after_underscore s = drop 1 (dropWhile (\<lambda>c. c \<noteq> CHR ''_'') s)"

section \<open>Condition evaluator\<close>

text \<open>
  \<open>WorkflowEngine._evaluate_condition\<close>. It reads the workflow only; \<open>None\<close> and the
  empty string are both falsy in the source.
\<close>

definition evaluate_condition :: "workflow \<Rightarrow> string option \<Rightarrow> bool" where
  "evaluate_condition w cond =
     (case cond of
        None \<Rightarrow> True
      | Some c \<Rightarrow>
          if c = [] then True
          else (case py_split (replace_eqeq c) of
                  var_name # _ # lit # _ \<Rightarrow>
                    (let expected_value = py_strip [CHR 0x27, CHR 0x22] lit in
                     if startswith ''status_'' var_name \<or> startswith ''result_'' var_name
                     then (let sid = after_underscore var_name in
                           case map_of (steps w) sid of
                             Some st \<Rightarrow>
                               py_lower (status_name (status st)) = py_lower expected_value
                           | None \<Rightarrow> True)
                     else True)
                | _ \<Rightarrow> True))"


section \<open>Shapes of condition expressions\<close>

text \<open>
  A token has no whitespace and no equals sign, so that \<open>replace\<close> and \<open>split\<close> leave it
  whole; a blank is a possibly empty run of whitespace. An operator token is not empty,
  has no whitespace and no two equals signs in a row: \<open>!=\<close>, \<open><=\<close>, \<open>=\<close>, \<open>is\<close>.
\<close>

definition is_token :: "string \<Rightarrow> bool" where
  "is_token t = list_all (\<lambda>c. \<not> is_space c \<and> c \<noteq> CHR ''='') t"

definition is_blank :: "string \<Rightarrow> bool" where
  "is_blank ws = list_all is_space ws"

fun no_eqeq :: "string \<Rightarrow> bool" where
  "no_eqeq (a # b # xs) = (\<not> (a = CHR ''='' \<and> b = CHR ''='') \<and> no_eqeq (b # xs))"
| "no_eqeq xs = True"

definition is_op :: "string \<Rightarrow> bool" where
  "is_op t = (t \<noteq> [] \<and> list_all (\<lambda>c. \<not> is_space c) t \<and> no_eqeq t)"

section \<open>Errors\<close>

text \<open>
  The exceptions the modelled code can raise: a dictionary lookup of a missing key, the
  \<open>ValueError\<close> of \<open>int\<close> on a malformed retry count, the \<open>ValueError\<close> that
  \<open>validate_workflow\<close> raises for a cycle, which carries the id it names, an exception of
  \<open>subprocess.run\<close> other than \<open>CalledProcessError\<close>, which \<open>_execute_step\<close> does not
  catch, and the \<open>RecursionError\<close> of a recursion deeper than the interpreter allows.
\<close>

datatype error =
  KeyError string | ValueError string | CycleDetected string | RunnerError string | RecursionError

section \<open>Levels\<close>

text \<open>
  The nested function \<open>get_level\<close> of \<open>_calculate_levels\<close>, with the dictionary \<open>levels\<close>
  as state, and the generator that \<open>max\<close> consumes. The recursion has no guard against
  a cycle; the interpreter ends a recursion that goes too deep with a \<open>RecursionError\<close>.
  The first argument is the number of nested calls of \<open>get_level\<close> that the interpreter
  still allows.
\<close>

fun get_level ::
    "nat \<Rightarrow> workflow \<Rightarrow> (string \<times> nat) list \<Rightarrow> string \<Rightarrow> error + nat \<times> (string \<times> nat) list"
  and get_level_deps ::
    "nat \<Rightarrow> workflow \<Rightarrow> (string \<times> nat) list \<Rightarrow> string list \<Rightarrow> error + nat list \<times> (string \<times> nat) list"
where
  "get_level 0 w levels sid = Inl RecursionError"
| "get_level (Suc n) w levels sid =
     (case map_of levels sid of
        Some l \<Rightarrow> Inr (l, levels)
      | None \<Rightarrow>
          (case map_of (steps w) sid of
             None \<Rightarrow> Inl (KeyError sid)
           | Some st \<Rightarrow>
               if dependencies st = [] then Inr (0, AList.update sid 0 levels)
               else (case get_level_deps n w levels (dependencies st) of
                       Inl err \<Rightarrow> Inl err
                     | Inr (ls, levels') \<Rightarrow>
                         Inr (1 + Max (set ls), AList.update sid (1 + Max (set ls)) levels'))))"
| "get_level_deps n w levels [] = Inr ([], levels)"
| "get_level_deps n w levels (dep # ds) =
     (case get_level n w levels dep of
        Inl err \<Rightarrow> Inl err
      | Inr (l, levels') \<Rightarrow>
          (case get_level_deps n w levels' ds of
             Inl err \<Rightarrow> Inl err
           | Inr (ls, levels'') \<Rightarrow> Inr (l # ls, levels'')))"

text \<open>The loop \<open>for step_id in workflow.steps: get_level(step_id)\<close>.\<close>

fun levels_loop ::
  "nat \<Rightarrow> workflow \<Rightarrow> (string \<times> nat) list \<Rightarrow> string list \<Rightarrow> error + (string \<times> nat) list" where
  "levels_loop n w levels [] = Inr levels"
| "levels_loop n w levels (sid # ks) =
     (case get_level n w levels sid of
        Inl err \<Rightarrow> Inl err
      | Inr (l, levels') \<Rightarrow> levels_loop n w levels' ks)"

text \<open>\<open>_calculate_levels\<close>, under the recursion limit \<open>n\<close>.\<close>

definition calculate_levels :: "nat \<Rightarrow> workflow \<Rightarrow> error + (string \<times> nat) list" where
  "calculate_levels n w = levels_loop n w [] (map fst (steps w))"

section \<open>Scheduling strategies\<close>

text \<open>
  A strategy object holds the level dictionary computed when it is built. The engine's
  \<open>strategy\<close> attribute is such an object or \<open>None\<close>.

  A step object is referred to by the key under which \<open>workflow.steps\<close> stores it;
  \<open>add_step\<close> stores a step under its own id, so this key is what the source reads as
  \<open>step.id\<close>.
\<close>

datatype strategy =
  BreadthFirstStrategy "(string \<times> nat) list"
| DepthFirstStrategy "(string \<times> nat) list"

text \<open>The keys \<open>self.levels[s.id]\<close> of the ready steps, in order; a missing id raises.\<close>

fun level_keys :: "(string \<times> nat) list \<Rightarrow> string list \<Rightarrow> error + (string \<times> nat) list" where
  "level_keys levels [] = Inr []"
| "level_keys levels (k # ks) =
     (case map_of levels k of
        None \<Rightarrow> Inl (KeyError k)
      | Some l \<Rightarrow> (case level_keys levels ks of
                    Inl err \<Rightarrow> Inl err
                  | Inr kls \<Rightarrow> Inr ((k, l) # kls)))"

text \<open>
  \<open>min(xs, key=...)\<close> and \<open>max(xs, key=...)\<close> keep the first element seen and replace it
  only by a strictly smaller (larger) one.
\<close>

fun min_by :: "string \<times> nat \<Rightarrow> (string \<times> nat) list \<Rightarrow> string" where
  "min_by (b, kb) [] = b"
| "min_by (b, kb) ((x, kx) # r) = (if kx < kb then min_by (x, kx) r else min_by (b, kb) r)"

fun max_by :: "string \<times> nat \<Rightarrow> (string \<times> nat) list \<Rightarrow> string" where
  "max_by (b, kb) [] = b"
| "max_by (b, kb) ((x, kx) # r) = (if kx > kb then max_by (x, kx) r else max_by (b, kb) r)"

fun get_next_steps :: "strategy \<Rightarrow> string list \<Rightarrow> error + string list" where
  "get_next_steps (BreadthFirstStrategy levels) ready_steps =
     (if ready_steps = [] then Inr []
      else (case level_keys levels ready_steps of
              Inl err \<Rightarrow> Inl err
            | Inr [] \<Rightarrow> Inr []
            | Inr (p # ps) \<Rightarrow> Inr [min_by p ps]))"
| "get_next_steps (DepthFirstStrategy levels) ready_steps =
     (if ready_steps = [] then Inr []
      else (case level_keys levels ready_steps of
              Inl err \<Rightarrow> Inl err
            | Inr [] \<Rightarrow> Inr []
            | Inr (p # ps) \<Rightarrow> Inr [max_by p ps]))"

section \<open>Workflow engine\<close>

text \<open>
  The state of a \<open>WorkflowEngine\<close> that a sequential run changes. The strategy is fixed
  at construction and is a parameter of the functions below.
\<close>

record engine =
  workflow :: workflow
  ready_queue :: "string list"
  execution_order :: "string list"

definition new_engine :: "workflow \<Rightarrow> engine" where
  "new_engine w = \<lparr>workflow = w, ready_queue = [], execution_order = []\<rparr>"

text \<open>Assignment to a field of the step object stored under \<open>k\<close>.\<close>

definition upd_step :: "string \<Rightarrow> (step \<Rightarrow> step) \<Rightarrow> engine \<Rightarrow> engine" where
  "upd_step k f e = e\<lparr>workflow := (workflow e)\<lparr>steps := AList.map_entry k f (steps (workflow e))\<rparr>\<rparr>"

definition set_status :: "string \<Rightarrow> status \<Rightarrow> engine \<Rightarrow> engine" where
  "set_status k st e = upd_step k (\<lambda>s. s\<lparr>status := st\<rparr>) e"

definition get_step :: "engine \<Rightarrow> string \<Rightarrow> step option" where
  "get_step e k = map_of (steps (workflow e)) k"

subsection \<open>Next step\<close>

text \<open>
  \<open>_get_next_step\<close>. With a strategy the chosen step stays in the queue (the caller
  removes it); without one the head of the queue is popped.
\<close>

definition get_next_step :: "strategy option \<Rightarrow> engine \<Rightarrow> error + (string option \<times> engine)" where
  "get_next_step strat e =
     (case strat of
        Some s \<Rightarrow>
          (case get_next_steps s (ready_queue e) of
             Inl err \<Rightarrow> Inl err
           | Inr [] \<Rightarrow> Inr (None, e)
           | Inr (x # _) \<Rightarrow> Inr (Some x, e))
      | None \<Rightarrow>
          (case ready_queue e of
             [] \<Rightarrow> Inr (None, e)
           | x # q \<Rightarrow> Inr (Some x, e\<lparr>ready_queue := q\<rparr>)))"

subsection \<open>Retry policy\<close>

text \<open>
  \<open>int(s)\<close>: whitespace around, an optional sign, then decimal digits with single
  underscores allowed between digits. A text with more than \<open>int_max_str_digits\<close> digits
  is refused (the default limit of Python 3.11 and later).
\<close>

definition is_digit :: "char \<Rightarrow> bool" where
  "is_digit c = (let n = of_char c :: nat in 48 \<le> n \<and> n \<le> 57)"

definition digit_value :: "char \<Rightarrow> nat" where
  "digit_value c = of_char c - 48"

fun parse_digits :: "bool \<Rightarrow> nat \<Rightarrow> string \<Rightarrow> nat option" where
  "parse_digits prev acc [] = (if prev then Some acc else None)"
| "parse_digits prev acc (c # cs) =
     (if is_digit c then parse_digits True (acc * 10 + digit_value c) cs
      else if c = CHR ''_'' \<and> prev then parse_digits False acc cs
      else None)"

definition int_max_str_digits :: nat where
  "int_max_str_digits = 4300"

definition parse_limited :: "string \<Rightarrow> nat option" where
  "parse_limited ds =
     (if length (filter is_digit ds) > int_max_str_digits then None
      else parse_digits False 0 ds)"

definition strip_space :: "string \<Rightarrow> string" where
  "strip_space s = rev (dropWhile is_space (rev (dropWhile is_space s)))"

definition py_int :: "string \<Rightarrow> int option" where
  "py_int s =
     (case strip_space s of
        [] \<Rightarrow> None
      | c # cs \<Rightarrow>
          if c = CHR ''-'' then map_option (\<lambda>n. - int n) (parse_limited cs)
          else if c = CHR ''+'' then map_option int (parse_limited cs)
          else map_option int (parse_limited (c # cs)))"

text \<open>
  \<open>s.split(":")[1]\<close>: the text between the first colon and the next one (or the end).
  It is only called on a string that starts with \<open>retry:\<close>, so a colon is there.
\<close>

definition split_colon_1 :: "string \<Rightarrow> string" where
  "split_colon_1 s =
     takeWhile (\<lambda>c. c \<noteq> CHR '':'') (drop 1 (dropWhile (\<lambda>c. c \<noteq> CHR '':'') s))"

subsection \<open>Running a step\<close>

text \<open>
  \<open>_execute_step\<close>. The command runner is outside the engine: \<open>run n cmd\<close> is what
  \<open>subprocess.run\<close> does with the command \<open>cmd\<close> when it is the \<open>n\<close>-th dispatch of the run
  (counted from 0). It is \<open>Some True\<close> for exit status 0, \<open>Some False\<close> for a
  \<open>CalledProcessError\<close>, and \<open>None\<close> when \<open>subprocess.run\<close> raises anything else (a
  \<open>UnicodeDecodeError\<close> on output that is not UTF-8, for one); that exception is not
  caught and leaves the step \<open>RUNNING\<close>. The result is the returned flag and the new
  state.
\<close>

definition execute_step ::
  "(nat \<Rightarrow> string \<Rightarrow> bool option) \<Rightarrow> string \<Rightarrow> engine \<Rightarrow> error + (bool \<times> engine)" where
  "execute_step run k e =
     (case get_step e k of
        None \<Rightarrow> Inl (KeyError k)
      | Some st \<Rightarrow>
          (let e1 = e\<lparr>execution_order := execution_order e @ [k]\<rparr>
           in case run (length (execution_order e)) (command st) of
                None \<Rightarrow> Inl (RunnerError (command st))
              | Some success \<Rightarrow>
                  if success then Inr (True, set_status k SUCCESS e1)
                  else (case failure_strategy st of
                          None \<Rightarrow> Inr (False, set_status k FAILED e1)
                        | Some fs \<Rightarrow>
                            if startswith ''retry:'' fs
                            then (case py_int (split_colon_1 fs) of
                                    None \<Rightarrow> Inl (ValueError (split_colon_1 fs))
                                  | Some max_retries \<Rightarrow>
                                      if int (retry_count st) < max_retries
                                      then Inr (False,
                                             upd_step k (\<lambda>s. s\<lparr>retry_count := retry_count s + 1,
                                                              status := PENDING\<rparr>) e1)
                                      else Inr (False, set_status k FAILED e1))
                            else Inr (False, set_status k FAILED e1))))"

subsection \<open>Readiness update\<close>

text \<open>
  \<open>all(steps[dep_id].status == "SUCCESS" for dep_id in step.dependencies)\<close>: the generator
  stops at the first dependency that is not \<open>SUCCESS\<close>.
\<close>

fun deps_satisfied :: "workflow \<Rightarrow> string list \<Rightarrow> error + bool" where
  "deps_satisfied w [] = Inr True"
| "deps_satisfied w (d # ds) =
     (case map_of (steps w) d of
        None \<Rightarrow> Inl (KeyError d)
      | Some s \<Rightarrow> if status s = SUCCESS then deps_satisfied w ds else Inr False)"

definition truthy :: "string option \<Rightarrow> bool" where
  "truthy c = (c \<noteq> None \<and> c \<noteq> Some [])"

text \<open>
  The body of the loop of \<open>_update_ready_queue\<close> for the step stored under \<open>k\<close>. The loop
  runs over the values of \<open>workflow.steps\<close>, so the step is always found.
\<close>

definition update_ready_step :: "string \<Rightarrow> engine \<Rightarrow> error + engine" where
  "update_ready_step k e =
     (case get_step e k of
        None \<Rightarrow> Inr e
      | Some st \<Rightarrow>
          if status st \<noteq> PENDING then Inr e
          else (case deps_satisfied (workflow e) (dependencies st) of
                  Inl err \<Rightarrow> Inl err
                | Inr sat \<Rightarrow>
                    if sat \<and> evaluate_condition (workflow e) (condition st)
                    then Inr ((set_status k READY e)\<lparr>ready_queue := ready_queue e @ [k]\<rparr>)
                    else if sat \<and> truthy (condition st)
                            \<and> \<not> evaluate_condition (workflow e) (condition st)
                    then Inr (set_status k SKIPPED e)
                    else Inr e))"

fun update_ready_loop :: "string list \<Rightarrow> engine \<Rightarrow> error + engine" where
  "update_ready_loop [] e = Inr e"
| "update_ready_loop (k # ks) e =
     (case update_ready_step k e of
        Inl err \<Rightarrow> Inl err
      | Inr e' \<Rightarrow> update_ready_loop ks e')"

definition update_ready_queue :: "engine \<Rightarrow> error + engine" where
  "update_ready_queue e = update_ready_loop (map fst (steps (workflow e))) e"

subsection \<open>Skip cascade\<close>

definition is_active :: "step \<Rightarrow> bool" where
  "is_active s = (status s = PENDING \<or> status s = READY)"

definition active_count :: "engine \<Rightarrow> nat" where
  "active_count e = length (filter (\<lambda>p. is_active (snd p)) (steps (workflow e)))"

text \<open>
  The \<open>while to_skip\<close> loop of \<open>_skip_dependents\<close>, with the deque \<open>to_skip\<close> and the set
  \<open>skipped\<close>.
\<close>

function skip_loop :: "string list \<Rightarrow> string set \<Rightarrow> engine \<Rightarrow> error + engine" where
  "skip_loop [] skipped e = Inr e"
| "skip_loop (skip_id # to_skip) skipped e =
     (if skip_id \<in> skipped then skip_loop to_skip skipped e
      else (case get_step e skip_id of
              None \<Rightarrow> Inl (KeyError skip_id)
            | Some skip_step \<Rightarrow>
                if is_active skip_step
                then (case map_of (inverse_dependencies (workflow e)) skip_id of
                        None \<Rightarrow> Inl (KeyError skip_id)
                      | Some ds \<Rightarrow>
                          skip_loop (to_skip @ ds) (insert skip_id skipped)
                            ((set_status skip_id SKIPPED e)
                               \<lparr>ready_queue := remove1 skip_id (ready_queue e)\<rparr>))
                else skip_loop to_skip skipped e))"
  by pat_completeness auto

termination
proof (relation "inv_image (less_than <*lex*> less_than)
                  (\<lambda>(ts, sk, e). (active_count e, length ts))")
  show "wf (inv_image (less_than <*lex*> less_than)
             (\<lambda>(ts :: string list, sk :: string set, e). (active_count e, length ts)))"
    by (intro wf_inv_image wf_lex_prod wf_less_than)
next
  fix skip_id :: string and to_skip :: "string list" and skipped :: "string set" and e :: engine
  show "((to_skip, skipped, e), (skip_id # to_skip, skipped, e))
          \<in> inv_image (less_than <*lex*> less_than) (\<lambda>(ts, sk, e). (active_count e, length ts))"
    by simp
next
  fix skip_id :: string and to_skip :: "string list" and skipped :: "string set" and e :: engine and skip_step ds
  assume g: "get_step e skip_id = Some skip_step" and a: "is_active skip_step"
  have dec: "map_of al skip_id = Some skip_step \<Longrightarrow>
        length (filter (\<lambda>p. is_active (snd p))
                 (AList.map_entry skip_id (\<lambda>s. s\<lparr>status := SKIPPED\<rparr>) al))
          < length (filter (\<lambda>p. is_active (snd p)) al)" for al
  proof (induction al)
    case Nil
    then show ?case by simp
  next
    case (Cons p al)
    then show ?case
      using a by (cases p) (auto simp: is_active_def)
  qed
  have "active_count ((set_status skip_id SKIPPED e)\<lparr>ready_queue := remove1 skip_id (ready_queue e)\<rparr>)
          < active_count e"
    using dec[of "steps (workflow e)"] g
    by (simp add: active_count_def set_status_def upd_step_def get_step_def)
  then show "((to_skip @ ds, insert skip_id skipped,
               (set_status skip_id SKIPPED e)\<lparr>ready_queue := remove1 skip_id (ready_queue e)\<rparr>),
              (skip_id # to_skip, skipped, e))
          \<in> inv_image (less_than <*lex*> less_than) (\<lambda>(ts, sk, e). (active_count e, length ts))"
    by simp
next
  fix skip_id :: string and to_skip :: "string list" and skipped :: "string set" and e :: engine
  show "((to_skip, skipped, e), (skip_id # to_skip, skipped, e))
          \<in> inv_image (less_than <*lex*> less_than) (\<lambda>(ts, sk, e). (active_count e, length ts))"
    by simp
qed

text \<open>\<open>_skip_dependents\<close>\<close>

definition skip_dependents :: "string \<Rightarrow> engine \<Rightarrow> error + engine" where
  "skip_dependents k e =
     (case map_of (inverse_dependencies (workflow e)) k of
        None \<Rightarrow> Inl (KeyError k)
      | Some ds \<Rightarrow> skip_loop ds {} e)"

subsection \<open>Sequential execution\<close>

text \<open>
  One pass through the body of the \<open>while\<close> loop of \<open>_execute_sequential\<close>, entered with
  a non-empty queue. The flag of the result is false when the loop is left by \<open>break\<close>.
\<close>

definition sequential_body ::
  "(nat \<Rightarrow> string \<Rightarrow> bool option) \<Rightarrow> strategy option \<Rightarrow> engine \<Rightarrow> error + (bool \<times> engine)" where
  "sequential_body run strat e =
     (case get_next_step strat e of
        Inl err \<Rightarrow> Inl err
      | Inr (None, e1) \<Rightarrow> Inr (False, e1)
      | Inr (Some k, e1) \<Rightarrow>
          (let e2 = e1\<lparr>ready_queue := remove1 k (ready_queue e1)\<rparr>;
               e3 = set_status k RUNNING e2
           in case execute_step run k e3 of
                Inl err \<Rightarrow> Inl err
              | Inr (success, e4) \<Rightarrow>
                  (case (if \<not> success \<and> map_option status (get_step e4 k) = Some FAILED
                         then skip_dependents k e4 else Inr e4) of
                     Inl err \<Rightarrow> Inl err
                   | Inr e5 \<Rightarrow>
                       (case update_ready_queue e5 of
                          Inl err \<Rightarrow> Inl err
                        | Inr e6 \<Rightarrow> Inr (True, e6)))))"

text \<open>
  \<open>_execute_sequential\<close>. The result is \<open>None\<close> when the loop does not end, otherwise the
  exception that left it or the final state.
\<close>

partial_function (option) execute_sequential ::
  "(nat \<Rightarrow> string \<Rightarrow> bool option) \<Rightarrow> strategy option \<Rightarrow> engine \<Rightarrow> (error + engine) option" where
  "execute_sequential run strat e =
     (if ready_queue e = [] then Some (Inr e)
      else (case sequential_body run strat e of
              Inl err \<Rightarrow> Some (Inl err)
            | Inr (continue, e') \<Rightarrow>
                if continue then execute_sequential run strat e' else Some (Inr e')))"

declare execute_sequential.simps [code]

text \<open>\<open>execute\<close> with \<open>max_parallel == 1\<close>, on a newly built engine.\<close>

definition execute ::
  "(nat \<Rightarrow> string \<Rightarrow> bool option) \<Rightarrow> strategy option \<Rightarrow> workflow \<Rightarrow> (error + engine) option" where
  "execute run strat w =
     (case update_ready_queue (new_engine w) of
        Inl err \<Rightarrow> Some (Inl err)
      | Inr e \<Rightarrow> execute_sequential run strat e)"

section \<open>Validation\<close>

text \<open>
  The nested function \<open>has_cycle\<close> of \<open>validate_workflow\<close>, with the two sets it shares
  with its caller as the state \<open>(visited, temp_visited)\<close>, and its \<open>for\<close> loop over the
  dependencies. The result is the returned flag and the state after the call. The
  first argument is the number of nested calls of \<open>has_cycle\<close> that the interpreter still
  allows; a call beyond it raises \<open>RecursionError\<close>.
\<close>

fun has_cycle ::
    "nat \<Rightarrow> workflow \<Rightarrow> string set \<times> string set \<Rightarrow> string
       \<Rightarrow> error + (bool \<times> string set \<times> string set)"
  and has_cycle_deps ::
    "nat \<Rightarrow> workflow \<Rightarrow> string set \<times> string set \<Rightarrow> string list
       \<Rightarrow> error + (bool \<times> string set \<times> string set)"
where
  "has_cycle 0 w s sid = Inl RecursionError"
| "has_cycle (Suc n) w (visited, temp_visited) sid =
     (if sid \<in> temp_visited then Inr (True, visited, temp_visited)
      else if sid \<in> visited then Inr (False, visited, temp_visited)
      else (case map_of (steps w) sid of
              None \<Rightarrow> Inl (KeyError sid)
            | Some st \<Rightarrow>
                (case has_cycle_deps n w (visited, insert sid temp_visited) (dependencies st) of
                   Inl err \<Rightarrow> Inl err
                 | Inr (True, s') \<Rightarrow> Inr (True, s')
                 | Inr (False, visited', temp_visited') \<Rightarrow>
                     Inr (False, insert sid visited', temp_visited' - {sid}))))"
| "has_cycle_deps n w s [] = Inr (False, s)"
| "has_cycle_deps n w s (dep_id # ds) =
     (case has_cycle n w s dep_id of
        Inl err \<Rightarrow> Inl err
      | Inr (True, s') \<Rightarrow> Inr (True, s')
      | Inr (False, s') \<Rightarrow> has_cycle_deps n w s' ds)"

text \<open>
  The loop \<open>for step_id in workflow.steps\<close> of \<open>validate_workflow\<close>: the first step for
  which \<open>has_cycle\<close> answers true is the one the \<open>ValueError\<close> names.
\<close>

fun validate_loop ::
  "nat \<Rightarrow> workflow \<Rightarrow> string set \<times> string set \<Rightarrow> string list \<Rightarrow> error + bool" where
  "validate_loop n w s [] = Inr True"
| "validate_loop n w s (sid # ks) =
     (case has_cycle n w s sid of
        Inl err \<Rightarrow> Inl err
      | Inr (True, s') \<Rightarrow> Inl (CycleDetected sid)
      | Inr (False, s') \<Rightarrow> validate_loop n w s' ks)"

text \<open>\<open>validate_workflow\<close>, under the recursion limit \<open>n\<close>.\<close>

definition validate_workflow :: "nat \<Rightarrow> workflow \<Rightarrow> error + bool" where
  "validate_workflow n w = validate_loop n w ({}, {}) (map fst (steps w))"

section \<open>Graph structure and well-formed workflows\<close>

text \<open>
  The dependency lists of a workflow, the dependency relation (\<open>(x, y)\<close> when \<open>x\<close>
  declares \<open>y\<close> as a dependency) and the status of a step in an engine state.
\<close>

definition deps_map :: "workflow \<Rightarrow> string \<Rightarrow> string list" where
  "deps_map w k = (case map_of (steps w) k of None \<Rightarrow> [] | Some s \<Rightarrow> dependencies s)"

definition dep_rel :: "workflow \<Rightarrow> (string \<times> string) set" where
  "dep_rel w = {(x, y). y \<in> set (deps_map w x)}"

definition status_of :: "engine \<Rightarrow> string \<Rightarrow> status option" where
  "status_of e k = map_option status (get_step e k)"

definition deps_success :: "engine \<Rightarrow> string \<Rightarrow> bool" where
  "deps_success e k = list_all (\<lambda>d. status_of e d = Some SUCCESS) (deps_map (workflow e) k)"

text \<open>
  What \<open>add_step\<close> and \<open>add_dependency\<close> maintain when every step is added once: ids are
  unique, a step is stored under its own id, dependencies are ids of the graph, and the
  reverse index lists exactly the dependents of each step.
\<close>

definition wf_workflow :: "workflow \<Rightarrow> bool" where
  "wf_workflow w =
     (distinct (map fst (steps w)) \<and>
      (\<forall>p \<in> set (steps w). step_id (snd p) = fst p \<and>
           set (dependencies (snd p)) \<subseteq> fst ` set (steps w)) \<and>
      (\<forall>k \<in> fst ` set (steps w).
           \<exists>ds. map_of (inverse_dependencies w) k = Some ds \<and>
                set ds = {d \<in> fst ` set (steps w). k \<in> set (deps_map w d)}))"

text \<open>The state in which the parser hands a workflow over: nothing has run.\<close>

definition fresh :: "workflow \<Rightarrow> bool" where
  "fresh w = (\<forall>p \<in> set (steps w). status (snd p) = PENDING \<and> retry_count (snd p) = 0)"

text \<open>A run changes the status and the retry count of steps and nothing else.\<close>

definition static :: "step \<Rightarrow> step" where
  "static s = s\<lparr>status := PENDING, retry_count := 0\<rparr>"

definition same_graph :: "workflow \<Rightarrow> workflow \<Rightarrow> bool" where
  "same_graph w w' =
     (map (\<lambda>p. (fst p, static (snd p))) (steps w') = map (\<lambda>p. (fst p, static (snd p))) (steps w) \<and>
      inverse_dependencies w' = inverse_dependencies w \<and> name w' = name w)"

text \<open>
  The retry budget of a step: the number parsed from a \<open>retry:N\<close> policy, and how much
  of it is left.
\<close>

definition max_retries_of :: "step \<Rightarrow> int option" where
  "max_retries_of s =
     (case failure_strategy s of
        None \<Rightarrow> None
      | Some fs \<Rightarrow> if startswith ''retry:'' fs then py_int (split_colon_1 fs) else None)"

definition retries_left :: "step \<Rightarrow> nat" where
  "retries_left s = (case max_retries_of s of None \<Rightarrow> 0 | Some m \<Rightarrow> nat (m - int (retry_count s)))"

text \<open>A bound on the number of passes the sequential loop can still make.\<close>

definition step_potential :: "step \<Rightarrow> nat" where
  "step_potential s = (if status s = PENDING then 2 else 0) + 3 * retries_left s"

definition potential :: "engine \<Rightarrow> nat" where
  "potential e = sum_list (map (\<lambda>p. step_potential (snd p)) (steps (workflow e)))
                 + length (ready_queue e)"

section \<open>Invariants of a sequential run\<close>

text \<open>
  The ready queue holds each \<open>READY\<close> step once and nothing else.
\<close>

definition inv_queue :: "engine \<Rightarrow> bool" where
  "inv_queue e =
     (distinct (ready_queue e) \<and> (\<forall>k. k \<in> set (ready_queue e) \<longleftrightarrow> status_of e k = Some READY))"

text \<open>A step that has left \<open>PENDING\<close> other than by a skip has all dependencies \<open>SUCCESS\<close>.\<close>

definition inv_deps :: "engine \<Rightarrow> bool" where
  "inv_deps e =
     (\<forall>k. status_of e k \<in> {Some READY, Some RUNNING, Some SUCCESS, Some FAILED}
          \<longrightarrow> deps_success e k)"

text \<open>
  A \<open>SKIPPED\<close> step was skipped by its condition (its dependencies are \<open>SUCCESS\<close>) or
  is a descendant of a \<open>FAILED\<close> step; every descendant of a \<open>FAILED\<close> step is \<open>SKIPPED\<close>.
\<close>

definition inv_skipped :: "engine \<Rightarrow> bool" where
  "inv_skipped e =
     (\<forall>k. status_of e k = Some SKIPPED \<longrightarrow>
          deps_success e k \<or>
          (\<exists>f. status_of e f = Some FAILED \<and> (k, f) \<in> (dep_rel (workflow e))\<^sup>+))"

definition inv_cascade :: "engine \<Rightarrow> bool" where
  "inv_cascade e =
     (\<forall>f d. status_of e f = Some FAILED \<longrightarrow> (d, f) \<in> (dep_rel (workflow e))\<^sup>+
            \<longrightarrow> status_of e d = Some SKIPPED)"

text \<open>
  Between two passes of the loop no step is \<open>RUNNING\<close>, and a \<open>PENDING\<close> step has a
  dependency that is not \<open>SUCCESS\<close>.
\<close>

definition inv_settled :: "engine \<Rightarrow> bool" where
  "inv_settled e =
     (\<forall>k. status_of e k \<noteq> Some RUNNING \<and>
          (status_of e k = Some PENDING \<longrightarrow> \<not> deps_success e k))"

text \<open>
  \<open>mid_inv\<close> is what holds after every operation of a pass; \<open>engine_inv\<close> is what holds
  between passes, for a run on the workflow \<open>w\<close>.
\<close>

definition mid_inv :: "workflow \<Rightarrow> engine \<Rightarrow> bool" where
  "mid_inv w e =
     (wf_workflow w \<and> same_graph w (workflow e) \<and> inv_queue e \<and> inv_deps e \<and>
      inv_skipped e \<and> inv_cascade e)"

definition engine_inv :: "workflow \<Rightarrow> engine \<Rightarrow> bool" where
  "engine_inv w e = (mid_inv w e \<and> inv_settled e)"

text \<open>
  What holds between the end of \<open>_execute_step\<close> for the step \<open>k\<close> and the cascade: as
  \<open>mid_inv\<close>, except that the descendants of \<open>k\<close> are not yet skipped when \<open>k\<close> has
  failed.
\<close>

definition pre_cascade :: "workflow \<Rightarrow> string \<Rightarrow> engine \<Rightarrow> bool" where
  "pre_cascade w k e =
     (wf_workflow w \<and> same_graph w (workflow e) \<and> inv_queue e \<and> inv_deps e \<and>
      (\<forall>x. status_of e x = Some SKIPPED \<longrightarrow>
           deps_success e x \<or>
           (\<exists>f. f \<noteq> k \<and> status_of e f = Some FAILED \<and> (x, f) \<in> (dep_rel w)\<^sup>+)) \<and>
      (\<forall>f d. f \<noteq> k \<longrightarrow> status_of e f = Some FAILED \<longrightarrow> (d, f) \<in> (dep_rel w)\<^sup>+
            \<longrightarrow> status_of e d = Some SKIPPED) \<and>
      (\<forall>x. status_of e x \<noteq> Some RUNNING))"

text \<open>
  Three conditions under which a run raises nothing: the level dictionary of the
  strategy has every step id, as one built by \<open>_calculate_levels\<close> for this workflow has,
  every \<open>retry:\<close> policy carries a number that \<open>int\<close> accepts, and \<open>subprocess.run\<close> raises
  nothing but \<open>CalledProcessError\<close>.
\<close>

definition strategy_levels :: "strategy \<Rightarrow> (string \<times> nat) list" where
  "strategy_levels s = (case s of BreadthFirstStrategy lv \<Rightarrow> lv | DepthFirstStrategy lv \<Rightarrow> lv)"

definition strategy_ok :: "strategy option \<Rightarrow> workflow \<Rightarrow> bool" where
  "strategy_ok strat w =
     (case strat of
        None \<Rightarrow> True
      | Some s \<Rightarrow> list_all (\<lambda>k. map_of (strategy_levels s) k \<noteq> None) (map fst (steps w)))"

definition runner_ok :: "(nat \<Rightarrow> string \<Rightarrow> bool option) \<Rightarrow> bool" where
  "runner_ok run = (\<forall>n cmd. run n cmd \<noteq> None)"

definition retry_ok :: "workflow \<Rightarrow> bool" where
  "retry_ok w =
     list_all (\<lambda>p. case failure_strategy (snd p) of
                     None \<Rightarrow> True
                   | Some fs \<Rightarrow> startswith ''retry:'' fs \<longrightarrow> py_int (split_colon_1 fs) \<noteq> None)
       (steps w)"

section \<open>Runs\<close>

text \<open>
  The states in which a sequential run on the workflow \<open>w\<close> tests the condition of its
  \<open>while\<close> loop: the state after the first readiness update, and the state after each
  pass through the body.
\<close>

inductive reachable ::
  "(nat \<Rightarrow> string \<Rightarrow> bool option) \<Rightarrow> strategy option \<Rightarrow> workflow \<Rightarrow> engine \<Rightarrow> bool"
  for run strat w where
  start: "update_ready_queue (new_engine w) = Inr e \<Longrightarrow> reachable run strat w e"
| pass: "reachable run strat w e \<Longrightarrow> ready_queue e \<noteq> [] \<Longrightarrow>
         sequential_body run strat e = Inr (True, e') \<Longrightarrow> reachable run strat w e'"

text \<open>
  The number of entries of the execution log \<open>lg\<close> that are dispatches of the step \<open>k\<close>
  with command \<open>cmd\<close> and outcome \<open>ok\<close>.
\<close>

definition attempts :: "(nat \<Rightarrow> string \<Rightarrow> bool option) \<Rightarrow> string list \<Rightarrow> string \<Rightarrow> string \<Rightarrow> bool \<Rightarrow> nat" where
  "attempts run lg k cmd ok =
     length (filter (\<lambda>i. lg ! i = k \<and> run i cmd = Some ok) [0..<length lg])"

text \<open>
  The log and the retry counters agree: a step's failed attempts are its retry count,
  plus one when it has failed for good; it has one successful attempt exactly when it is
  \<open>SUCCESS\<close>; every entry of the log for the step is one of these attempts; the retry
  count stays within the budget.
\<close>

definition inv_log :: "(nat \<Rightarrow> string \<Rightarrow> bool option) \<Rightarrow> engine \<Rightarrow> bool" where
  "inv_log run e =
     (\<forall>k. case get_step e k of
            None \<Rightarrow> count_list (execution_order e) k = 0
          | Some s \<Rightarrow>
              attempts run (execution_order e) k (command s) False
                = retry_count s + (if status s = FAILED then 1 else 0) \<and>
              attempts run (execution_order e) k (command s) True
                = (if status s = SUCCESS then 1 else 0) \<and>
              count_list (execution_order e) k
                = attempts run (execution_order e) k (command s) False
                  + attempts run (execution_order e) k (command s) True \<and>
              (case max_retries_of s of
                 None \<Rightarrow> retry_count s = 0
               | Some m \<Rightarrow> int (retry_count s) \<le> max 0 m \<and>
                          (status s = FAILED \<longrightarrow> m \<le> int (retry_count s))))"

text \<open>
  A step that has been dispatched has all its dependencies \<open>SUCCESS\<close>; a step without a
  condition is \<open>SKIPPED\<close> only below a dependency that is \<open>FAILED\<close> or \<open>SKIPPED\<close>.
\<close>

definition inv_dispatched :: "engine \<Rightarrow> bool" where
  "inv_dispatched e =
     (\<forall>k. (k \<in> set (execution_order e) \<longrightarrow> deps_success e k) \<and>
          (\<forall>s. get_step e k = Some s \<longrightarrow> status s = SKIPPED \<longrightarrow> \<not> truthy (condition s) \<longrightarrow>
               (\<exists>d \<in> set (dependencies s).
                   status_of e d = Some FAILED \<or> status_of e d = Some SKIPPED)))"

text \<open>
  A step together with the steps it depends on, directly or through other steps.
\<close>

definition upstream :: "workflow \<Rightarrow> string \<Rightarrow> string set" where
  "upstream w k = {d. (k, d) \<in> (dep_rel w)\<^sup>*}"

text \<open>
  A level dictionary is right on its keys: a key is a step id, the dependencies of the
  step are keys, and the level is 0 without dependencies and otherwise one more than the
  greatest level of a dependency.
\<close>

definition levels_ok :: "workflow \<Rightarrow> (string \<times> nat) list \<Rightarrow> bool" where
  "levels_ok w lv =
     (\<forall>k l. map_of lv k = Some l \<longrightarrow>
        (\<exists>s. map_of (steps w) k = Some s \<and>
             (\<forall>d\<in>set (dependencies s). map_of lv d \<noteq> None) \<and>
             l = (if dependencies s = [] then 0
                  else 1 + Max ((\<lambda>d. the (map_of lv d)) ` set (dependencies s)))))"

text \<open>
  A call of \<open>get_level\<close> leaves a right dictionary right, keeps its entries and adds
  keys from the set \<open>U\<close> only.
\<close>

definition levels_grow ::
  "workflow \<Rightarrow> (string \<times> nat) list \<Rightarrow> (string \<times> nat) list \<Rightarrow> string set \<Rightarrow> bool" where
  "levels_grow w lv lv' U =
     (levels_ok w lv' \<and> map_of lv \<subseteq>\<^sub>m map_of lv' \<and> dom (map_of lv') \<subseteq> dom (map_of lv) \<union> U)"

section \<open>Example workflows\<close>

text \<open>
  Four steps: \<open>B\<close> and \<open>C\<close> depend on \<open>A\<close>, \<open>D\<close> depends on \<open>B\<close>; \<open>B\<close> has the policy
  \<open>retry:2\<close> and \<open>C\<close> the condition \<open>status_B == failed\<close>. Under \<open>ex_run\<close> the command of
  \<open>B\<close> fails every time and every other command succeeds.
\<close>

definition ex_workflow :: workflow where
  "ex_workflow =
     add_dependency ''D'' ''B''
       (add_dependency ''C'' ''A''
         (add_dependency ''B'' ''A''
           (add_step (new_step ''D'' ''d'')
             (add_step ((new_step ''C'' ''c'')\<lparr>condition := Some ''status_B == failed''\<rparr>)
               (add_step ((new_step ''B'' ''b'')\<lparr>failure_strategy := Some ''retry:2''\<rparr>)
                 (add_step (new_step ''A'' ''a'') (new_workflow ''ex'')))))))"

definition ex_run :: "nat \<Rightarrow> string \<Rightarrow> bool option" where
  "ex_run n cmd = Some (cmd \<noteq> ''b'')"

text \<open>
  Three steps in a chain: \<open>B\<close> depends on \<open>A\<close> and has the condition
  \<open>status_A == failed\<close>, \<open>C\<close> depends on \<open>B\<close>. Under \<open>ok_run\<close> every command succeeds.
\<close>

definition chain_workflow :: workflow where
  "chain_workflow =
     add_dependency ''C'' ''B''
       (add_dependency ''B'' ''A''
         (add_step (new_step ''C'' ''c'')
           (add_step ((new_step ''B'' ''b'')\<lparr>condition := Some ''status_A == failed''\<rparr>)
             (add_step (new_step ''A'' ''a'') (new_workflow ''chain'')))))"

definition ok_run :: "nat \<Rightarrow> string \<Rightarrow> bool option" where
  "ok_run n cmd = Some True"

text \<open>The states in which the runs of the two examples end.\<close>

definition ex_final :: engine where
  "ex_final =
     \<lparr>workflow =
        \<lparr>name = ''ex'',
         steps =
           [(''A'', (new_step ''A'' ''a'')\<lparr>status := SUCCESS\<rparr>),
            (''B'', (new_step ''B'' ''b'')\<lparr>dependencies := [''A''],
                      failure_strategy := Some ''retry:2'', status := FAILED, retry_count := 2\<rparr>),
            (''C'', (new_step ''C'' ''c'')\<lparr>dependencies := [''A''],
                      condition := Some ''status_B == failed'', status := SKIPPED\<rparr>),
            (''D'', (new_step ''D'' ''d'')\<lparr>dependencies := [''B''], status := SKIPPED\<rparr>)],
         inverse_dependencies = [(''A'', [''B'', ''C'']), (''B'', [''D'']), (''C'', []), (''D'', [])]\<rparr>,
      ready_queue = [], execution_order = [''A'', ''B'', ''B'', ''B'']\<rparr>"

definition chain_final :: engine where
  "chain_final =
     \<lparr>workflow =
        \<lparr>name = ''chain'',
         steps =
           [(''A'', (new_step ''A'' ''a'')\<lparr>status := SUCCESS\<rparr>),
            (''B'', (new_step ''B'' ''b'')\<lparr>dependencies := [''A''],
                      condition := Some ''status_A == failed'', status := SKIPPED\<rparr>),
            (''C'', (new_step ''C'' ''c'')\<lparr>dependencies := [''B'']\<rparr>)],
         inverse_dependencies = [(''A'', [''B'']), (''B'', [''C'']), (''C'', [])]\<rparr>,
      ready_queue = [], execution_order = [''A'']\<rparr>"

text \<open>
  Two independent steps: \<open>B\<close>, and \<open>A\<close> with the policy \<open>retry:2\<close> and the condition
  \<open>status_B == ready\<close>. Under \<open>flip_run\<close> the command of \<open>A\<close> fails every time and the
  command of \<open>B\<close> succeeds.
\<close>

definition flip_workflow :: workflow where
  "flip_workflow =
     add_step ((new_step ''A'' ''a'')\<lparr>condition := Some ''status_B == ready'',
                                      failure_strategy := Some ''retry:2''\<rparr>)
       (add_step (new_step ''B'' ''b'') (new_workflow ''flip''))"

definition flip_run :: "nat \<Rightarrow> string \<Rightarrow> bool option" where
  "flip_run n cmd = Some (cmd \<noteq> ''a'')"

definition flip_final :: engine where
  "flip_final =
     \<lparr>workflow =
        \<lparr>name = ''flip'',
         steps =
           [(''B'', (new_step ''B'' ''b'')\<lparr>status := SUCCESS\<rparr>),
            (''A'', (new_step ''A'' ''a'')\<lparr>condition := Some ''status_B == ready'',
                      failure_strategy := Some ''retry:2'', status := SKIPPED, retry_count := 1\<rparr>)],
         inverse_dependencies = [(''B'', []), (''A'', [])]\<rparr>,
      ready_queue = [], execution_order = [''B'', ''A'']\<rparr>"

text \<open>The state of the first example after the pass that runs \<open>A\<close>.\<close>

definition ex_after_A :: engine where
  "ex_after_A =
     \<lparr>workflow =
        \<lparr>name = ''ex'',
         steps =
           [(''A'', (new_step ''A'' ''a'')\<lparr>status := SUCCESS\<rparr>),
            (''B'', (new_step ''B'' ''b'')\<lparr>dependencies := [''A''],
                      failure_strategy := Some ''retry:2'', status := READY\<rparr>),
            (''C'', (new_step ''C'' ''c'')\<lparr>dependencies := [''A''],
                      condition := Some ''status_B == failed'', status := SKIPPED\<rparr>),
            (''D'', (new_step ''D'' ''d'')\<lparr>dependencies := [''B'']\<rparr>)],
         inverse_dependencies = [(''A'', [''B'', ''C'']), (''B'', [''D'']), (''C'', []), (''D'', [])]\<rparr>,
      ready_queue = [''B''], execution_order = [''A'']\<rparr>"

text \<open>
  One step \<open>A\<close> with the policy \<open>retry:2\<close>. Under \<open>third_run\<close> the first two
  dispatches of the run fail and every later one succeeds.
\<close>

definition retry_workflow :: workflow where
  "retry_workflow =
     add_step ((new_step ''A'' ''a'')\<lparr>failure_strategy := Some ''retry:2''\<rparr>) (new_workflow ''retry'')"

definition third_run :: "nat \<Rightarrow> string \<Rightarrow> bool option" where
  "third_run n cmd = Some (2 \<le> n)"

text \<open>The state in which that run ends.\<close>

definition retry_final :: engine where
  "retry_final =
     \<lparr>workflow =
        \<lparr>name = ''retry'',
         steps = [(''A'', (new_step ''A'' ''a'')\<lparr>failure_strategy := Some ''retry:2'',
                            status := SUCCESS, retry_count := 2\<rparr>)],
         inverse_dependencies = [(''A'', [])]\<rparr>,
      ready_queue = [], execution_order = [''A'', ''A'', ''A'']\<rparr>"

text \<open>
  Three steps: \<open>Z\<close>, \<open>B\<close>, and \<open>A\<close>, which depends on \<open>Z\<close> and has the condition
  \<open>status_B == ready\<close> and the policy \<open>retry:1\<close>. Under \<open>gate_run\<close> the command of \<open>A\<close>
  fails and the other commands succeed. \<open>gate_before\<close> is the state of the run before
  its last readiness update, \<open>gate_final\<close> the state in which it ends.
\<close>

definition gate_workflow :: workflow where
  "gate_workflow =
     add_dependency ''A'' ''Z''
       (add_step ((new_step ''A'' ''a'')\<lparr>condition := Some ''status_B == ready'',
                                        failure_strategy := Some ''retry:1''\<rparr>)
         (add_step (new_step ''B'' ''b'')
           (add_step (new_step ''Z'' ''z'') (new_workflow ''gate''))))"

definition gate_run :: "nat \<Rightarrow> string \<Rightarrow> bool option" where
  "gate_run n cmd = Some (cmd \<noteq> ''a'')"

definition gate_before :: engine where
  "gate_before =
     \<lparr>workflow =
        \<lparr>name = ''gate'',
         steps =
           [(''Z'', (new_step ''Z'' ''z'')\<lparr>status := SUCCESS\<rparr>),
            (''B'', (new_step ''B'' ''b'')\<lparr>status := SUCCESS\<rparr>),
            (''A'', (new_step ''A'' ''a'')\<lparr>dependencies := [''Z''],
                      condition := Some ''status_B == ready'',
                      failure_strategy := Some ''retry:1'', status := PENDING, retry_count := 1\<rparr>)],
         inverse_dependencies = [(''Z'', [''A'']), (''B'', []), (''A'', [])]\<rparr>,
      ready_queue = [], execution_order = [''Z'', ''B'', ''A'']\<rparr>"

definition gate_final :: engine where
  "gate_final = set_status ''A'' SKIPPED gate_before"






text \<open>
  Two independent steps, \<open>A\<close> with the policy \<open>retry:1\<close> and \<open>B\<close>. Under \<open>tie_run\<close> the
  first dispatch of the run fails and the later ones succeed. \<open>tie_first\<close> is the state
  after the first readiness update and \<open>tie_second\<close> the state after the first pass of
  a breadth-first run.
\<close>

definition tie_workflow :: workflow where
  "tie_workflow =
     add_step (new_step ''B'' ''b'')
       (add_step ((new_step ''A'' ''a'')\<lparr>failure_strategy := Some ''retry:1''\<rparr>)
          (new_workflow ''tie''))"

definition tie_run :: "nat \<Rightarrow> string \<Rightarrow> bool option" where
  "tie_run n cmd = Some (0 < n)"

definition tie_state :: "nat \<Rightarrow> string list \<Rightarrow> string list \<Rightarrow> engine" where
  "tie_state r q lg =
     \<lparr>workflow =
        \<lparr>name = ''tie'',
         steps =
           [(''A'', (new_step ''A'' ''a'')\<lparr>failure_strategy := Some ''retry:1'',
                      status := READY, retry_count := r\<rparr>),
            (''B'', (new_step ''B'' ''b'')\<lparr>status := READY\<rparr>)],
         inverse_dependencies = [(''A'', []), (''B'', [])]\<rparr>,
      ready_queue = q, execution_order = lg\<rparr>"

definition tie_first :: engine where
  "tie_first = tie_state 0 [''A'', ''B''] []"

definition tie_second :: engine where
  "tie_second = tie_state 1 [''B'', ''A''] [''A'']"

section \<open>Properties of the condition evaluator\<close>

lemma replace_eqeq_noeq: "a \<noteq> CHR ''='' \<Longrightarrow> replace_eqeq (a # xs) = a # replace_eqeq xs"
  by (cases xs) auto

lemma replace_eqeq_append: "CHR ''='' \<notin> set t \<Longrightarrow> replace_eqeq (t @ r) = t @ replace_eqeq r"
  by (induction t) (auto simp: replace_eqeq_noeq)

lemma replace_eqeq_no_eqeq:
  "no_eqeq t \<Longrightarrow> r = [] \<or> hd r \<noteq> CHR ''='' \<Longrightarrow> replace_eqeq (t @ r) = t @ replace_eqeq r"
proof (induction t)
  case Nil
  then show ?case by simp
next
  case (Cons a t)
  show ?case
  proof (cases t)
    case Nil
    then show ?thesis using Cons.prems by (cases r) auto
  next
    case (Cons b xs)
    then show ?thesis using Cons.IH Cons.prems by auto
  qed
qed

lemma split_acc_token: "\<forall>c\<in>set t. \<not> is_space c \<Longrightarrow> split_acc cur (t @ r) = split_acc (cur @ t) r"
  by (induction t arbitrary: cur) auto

lemma split_acc_spaces: "\<forall>c\<in>set ws. is_space c \<Longrightarrow> split_acc [] (ws @ r) = split_acc [] r"
  by (induction ws) auto

lemma split_acc_spaces_cur:
  "\<forall>c\<in>set ws. is_space c \<Longrightarrow> ws \<noteq> [] \<Longrightarrow> cur \<noteq> [] \<Longrightarrow> split_acc cur (ws @ r) = cur # split_acc [] r"
  by (cases ws) (auto simp: split_acc_spaces)

lemma is_space_blank: "is_space CHR '' ''"
  by (simp add: is_space_def)

lemma not_space_eq: "\<not> is_space CHR ''=''"
  by (simp add: is_space_def)

lemma is_token_set: "is_token t \<Longrightarrow> (\<forall>c\<in>set t. \<not> is_space c) \<and> CHR ''='' \<notin> set t"
  by (auto simp: is_token_def list_all_iff)

lemma is_blank_set: "is_blank ws \<Longrightarrow> (\<forall>c\<in>set ws. is_space c) \<and> CHR ''='' \<notin> set ws"
  using not_space_eq by (auto simp: is_blank_def list_all_iff)

lemma split_ref_op:
  assumes "T \<noteq> []" "is_token T" "is_blank ws"
  shows "py_split (replace_eqeq (T @ ws @ ''=='' @ R)) = T # ''=='' # py_split (replace_eqeq R)"
proof -
  have ne: "CHR ''='' \<notin> set (T @ ws)"
    using assms is_token_set is_blank_set by auto
  have "replace_eqeq (T @ ws @ ''=='' @ R) = (T @ ws) @ replace_eqeq (''=='' @ R)"
    using replace_eqeq_append[OF ne] by simp
  also have "\<dots> = T @ (ws @ '' '') @ ''=='' @ '' '' @ replace_eqeq R"
    by simp
  finally have r: "replace_eqeq (T @ ws @ ''=='' @ R) = T @ (ws @ '' '') @ ''=='' @ '' '' @ replace_eqeq R" .
  have sp: "\<forall>c\<in>set (ws @ '' ''). is_space c"
    using assms is_blank_set is_space_blank by auto
  have "split_acc [] (T @ (ws @ '' '') @ ''=='' @ '' '' @ replace_eqeq R)
        = split_acc T ((ws @ '' '') @ ''=='' @ '' '' @ replace_eqeq R)"
    using split_acc_token[of T "[]"] assms is_token_set by simp
  also have "\<dots> = T # split_acc [] (''=='' @ '' '' @ replace_eqeq R)"
    using split_acc_spaces_cur[OF sp] assms by simp
  also have "\<dots> = T # ''=='' # split_acc [] (replace_eqeq R)"
    by (simp add: not_space_eq is_space_blank)
  finally show ?thesis
    by (simp only: py_split_def r)
qed

lemma split_literal:
  assumes "is_blank ws" "is_token lit" "lit \<noteq> []" "rest = [] \<or> is_space (hd rest)"
  shows "\<exists>ts. py_split (replace_eqeq (ws @ lit @ rest)) = lit # ts"
proof -
  have ne: "CHR ''='' \<notin> set (ws @ lit)"
    using assms is_token_set is_blank_set by auto
  have r: "replace_eqeq (ws @ lit @ rest) = ws @ lit @ replace_eqeq rest"
    using replace_eqeq_append[OF ne] by simp
  have s: "split_acc [] (ws @ lit @ Z) = split_acc lit Z" for Z
    using assms is_blank_set is_token_set split_acc_spaces[of ws] split_acc_token[of lit "[]"]
    by simp
  have e: "py_split (replace_eqeq (ws @ lit @ rest)) = split_acc lit (replace_eqeq rest)"
    by (simp only: py_split_def r s)
  show ?thesis
  proof (cases rest)
    case Nil
    then show ?thesis using assms e by simp
  next
    case (Cons c cs)
    then have c: "is_space c" using assms by simp
    then have "c \<noteq> CHR ''=''" using not_space_eq by auto
    then have "replace_eqeq rest = c # replace_eqeq cs"
      using Cons by (simp add: replace_eqeq_noeq)
    then show ?thesis using assms c e by simp
  qed
qed

lemma split_ref_any_op:
  assumes "T \<noteq> []" "is_token T" "is_blank ws1" "ws1 \<noteq> []" "is_op op"
    "is_blank ws2" "ws2 \<noteq> []" "is_token lit" "lit \<noteq> []" "rest = [] \<or> is_space (hd rest)"
  shows "\<exists>ts. py_split (replace_eqeq (T @ ws1 @ op @ ws2 @ lit @ rest)) = T # op # lit # ts"
proof -
  obtain c cs where w2: "ws2 = c # cs" using assms by (cases ws2) auto
  then have c: "is_space c" "is_blank cs" using assms by (auto simp: is_blank_def)
  have ce: "c \<noteq> CHR ''=''" using c not_space_eq by auto
  have op: "op \<noteq> []" "\<forall>x\<in>set op. \<not> is_space x" "no_eqeq op"
    using assms(5) by (auto simp: is_op_def list_all_iff)
  have ne: "CHR ''='' \<notin> set (T @ ws1)"
    using assms is_token_set is_blank_set by auto
  have "replace_eqeq (T @ ws1 @ op @ ws2 @ lit @ rest)
           = (T @ ws1) @ replace_eqeq (op @ (c # cs @ lit @ rest))"
    using replace_eqeq_append[OF ne] w2 by simp
  also have "replace_eqeq (op @ (c # cs @ lit @ rest)) = op @ replace_eqeq (c # cs @ lit @ rest)"
    using replace_eqeq_no_eqeq[OF op(3)] ce by simp
  also have "replace_eqeq (c # cs @ lit @ rest) = c # replace_eqeq (cs @ lit @ rest)"
    using ce by (rule replace_eqeq_noeq)
  finally have r: "replace_eqeq (T @ ws1 @ op @ ws2 @ lit @ rest)
           = T @ ws1 @ op @ [c] @ replace_eqeq (cs @ lit @ rest)"
    by simp
  obtain ts where m: "py_split (replace_eqeq (cs @ lit @ rest)) = lit # ts"
    using split_literal[OF c(2) assms(8,9,10)] by blast
  have "split_acc [] (T @ ws1 @ op @ [c] @ Z) = T # op # split_acc [] Z" for Z
  proof -
    have "split_acc [] (T @ ws1 @ op @ [c] @ Z) = split_acc T (ws1 @ op @ [c] @ Z)"
      using split_acc_token[of T "[]"] assms is_token_set by simp
    also have "\<dots> = T # split_acc [] (op @ [c] @ Z)"
      using split_acc_spaces_cur[of ws1 T] assms is_blank_set by simp
    also have "\<dots> = T # split_acc op ([c] @ Z)"
      using split_acc_token[of op "[]"] op by simp
    also have "\<dots> = T # op # split_acc [] Z"
      using c op by simp
    finally show ?thesis .
  qed
  then have "py_split (replace_eqeq (T @ ws1 @ op @ ws2 @ lit @ rest)) = T # op # lit # ts"
    using m by (simp only: py_split_def r)
  then show ?thesis by blast
qed

lemma after_underscore_status: "after_underscore (''status_'' @ X) = X"
  by (simp add: after_underscore_def)

lemma after_underscore_result: "after_underscore (''result_'' @ X) = X"
  by (simp add: after_underscore_def)

lemma evaluate_condition_parts:
  assumes "py_split (replace_eqeq c) = (pre @ X) # op # lit # ts"
    "pre = ''status_'' \<or> pre = ''result_''"
  shows "evaluate_condition w (Some c) =
     (case map_of (steps w) X of
        Some st \<Rightarrow> py_lower (status_name (status st)) = py_lower (py_strip [CHR 0x27, CHR 0x22] lit)
      | None \<Rightarrow> True)"
proof -
  have "c \<noteq> []" using assms by (auto simp: py_split_def)
  moreover have "startswith ''status_'' (pre @ X) \<or> startswith ''result_'' (pre @ X)"
    using assms(2) by (auto simp: startswith_def)
  moreover have "after_underscore (pre @ X) = X"
    using assms(2) after_underscore_status after_underscore_result by auto
  ultimately show ?thesis
    using assms(1) by (simp add: evaluate_condition_def split: option.splits)
qed

lemma is_token_ref: "pre = ''status_'' \<or> pre = ''result_'' \<Longrightarrow> is_token X \<Longrightarrow> is_token (pre @ X)"
  by (auto simp: is_token_def is_space_def)


text \<open>
  Claim C10. A condition \<open>status_X == literal\<close> or \<open>result_X == literal\<close>, with any
  amount of whitespace around the operator and anything after it, evaluates to true when
  \<open>X\<close> is not the id of a step of the graph: the unknown reference is not an error.
\<close>

theorem evaluate_condition_unknown_step:
  assumes "pre = ''status_'' \<or> pre = ''result_''" and "is_token X" and "is_blank ws"
    and "map_of (steps w) X = None"
  shows "evaluate_condition w (Some (pre @ X @ ws @ ''=='' @ R))"
proof -
  have T: "pre @ X \<noteq> []" "is_token (pre @ X)"
    using assms is_token_ref by auto
  have p: "py_split (replace_eqeq ((pre @ X) @ ws @ ''=='' @ R))
           = (pre @ X) # ''=='' # py_split (replace_eqeq R)"
    by (rule split_ref_op[OF T assms(3)])
  show ?thesis
  proof (cases "py_split (replace_eqeq R)")
    case Nil
    then show ?thesis using p by (simp add: evaluate_condition_def)
  next
    case (Cons lit ts)
    then have "py_split (replace_eqeq (pre @ X @ ws @ ''=='' @ R)) = (pre @ X) # ''=='' # lit # ts"
      using p by simp
    from evaluate_condition_parts[OF this assms(1)] show ?thesis
      using assms(4) by simp
  qed
qed

theorem evaluate_condition_unknown_step_witness:
  "is_token ''B'' \<and> is_blank '' '' \<and>
   map_of (steps (add_step (new_step ''A'' ''true'') (new_workflow ''w''))) ''B'' = None \<and>
   evaluate_condition (add_step (new_step ''A'' ''true'') (new_workflow ''w''))
     (Some (''result_'' @ ''B'' @ '' '' @ ''=='' @ '' 'FAILED' ''))"
proof -
  have a: "is_token ''B''" by (simp add: is_token_def is_space_def)
  have b: "is_blank '' ''" by (simp add: is_blank_def is_space_def)
  have c: "map_of (steps (add_step (new_step ''A'' ''true'') (new_workflow ''w''))) ''B'' = None"
    by (simp add: add_step_def new_step_def new_workflow_def)
  show ?thesis
    using a b c evaluate_condition_unknown_step[OF _ a b c, of "''result_''" "'' 'FAILED' ''"]
    by simp
qed

text \<open>
  Claim C4, as amended. Take a reference \<open>status_X\<close> or \<open>result_X\<close> to an existing step
  \<open>X\<close>, an operator, a literal without whitespace and equals signs, and possibly further
  text after whitespace. The operator is \<open>==\<close> with any spacing, also none, or any other
  non-empty text without whitespace and without two equals signs in a row (\<open>!=\<close>, \<open><=\<close>,
  \<open>>=\<close>, \<open>=\<close>, \<open>is\<close>) with whitespace on both sides. Such an expression evaluates to the
  case-insensitive comparison of the step's status name with the literal stripped of
  quotes, whatever the operator is: the second token is never examined. An expression
  with fewer than three tokens, or whose first token has neither prefix, and an absent
  expression evaluate to true.
\<close>

theorem evaluate_condition_forms:
  "((pre = ''status_'' \<or> pre = ''result_'') \<and> is_token X \<and> is_blank ws1 \<and> is_blank ws2 \<and>
    (op = ''=='' \<or> (is_op op \<and> ws1 \<noteq> [] \<and> ws2 \<noteq> [])) \<and>
    is_token lit \<and> lit \<noteq> [] \<and> (rest = [] \<or> is_space (hd rest)) \<and>
    map_of (steps w) X = Some st \<longrightarrow>
    evaluate_condition w (Some (pre @ X @ ws1 @ op @ ws2 @ lit @ rest)) =
      (py_lower (status_name (status st)) = py_lower (py_strip [CHR 0x27, CHR 0x22] lit)))
   \<and> (length (py_split (replace_eqeq c)) < 3 \<longrightarrow> evaluate_condition w (Some c))
   \<and> (py_split (replace_eqeq c) = v # ts \<and> \<not> startswith ''status_'' v \<and>
        \<not> startswith ''result_'' v \<longrightarrow> evaluate_condition w (Some c))
   \<and> evaluate_condition w None"
proof (intro conjI impI)
  assume a: "(pre = ''status_'' \<or> pre = ''result_'') \<and> is_token X \<and> is_blank ws1 \<and> is_blank ws2 \<and>
    (op = ''=='' \<or> (is_op op \<and> ws1 \<noteq> [] \<and> ws2 \<noteq> [])) \<and>
    is_token lit \<and> lit \<noteq> [] \<and> (rest = [] \<or> is_space (hd rest)) \<and>
    map_of (steps w) X = Some st"
  then have T: "pre @ X \<noteq> []" "is_token (pre @ X)"
    using is_token_ref by auto
  have "\<exists>us. py_split (replace_eqeq ((pre @ X) @ ws1 @ op @ ws2 @ lit @ rest))
              = (pre @ X) # op # lit # us"
  proof (cases "op = ''==''")
    case True
    obtain us where "py_split (replace_eqeq (ws2 @ lit @ rest)) = lit # us"
      using split_literal[of ws2 lit rest] a by blast
    then show ?thesis
      using split_ref_op[OF T, of ws1 "ws2 @ lit @ rest"] a True by simp
  next
    case False
    then show ?thesis
      using split_ref_any_op[OF T, of ws1 op ws2 lit rest] a by blast
  qed
  then obtain us where
    "py_split (replace_eqeq (pre @ X @ ws1 @ op @ ws2 @ lit @ rest)) = (pre @ X) # op # lit # us"
    by auto
  from evaluate_condition_parts[OF this] a
  show "evaluate_condition w (Some (pre @ X @ ws1 @ op @ ws2 @ lit @ rest)) =
      (py_lower (status_name (status st)) = py_lower (py_strip [CHR 0x27, CHR 0x22] lit))"
    by simp
next
  assume "length (py_split (replace_eqeq c)) < 3"
  then show "evaluate_condition w (Some c)"
    by (auto simp: evaluate_condition_def split: list.splits)
next
  assume "py_split (replace_eqeq c) = v # ts \<and> \<not> startswith ''status_'' v \<and>
        \<not> startswith ''result_'' v"
  then show "evaluate_condition w (Some c)"
    by (auto simp: evaluate_condition_def split: list.splits)
next
  show "evaluate_condition w None"
    by (simp add: evaluate_condition_def)
qed

text \<open>
  Claim C4 as stated fails: \<open>status_A != SUCCESS\<close> is not of the two-operand equality
  form, and it evaluates to false while \<open>A\<close> is pending.
\<close>

theorem evaluate_condition_malformed_counterexample:
  "\<not> evaluate_condition (add_step (new_step ''A'' ''true'') (new_workflow ''w''))
       (Some ''status_A != SUCCESS'')"
  by (simp add: evaluate_condition_def py_split_def is_space_def py_strip_def startswith_def
      after_underscore_def add_step_def new_step_def new_workflow_def py_lower_def lower_char_def)

text \<open>
  The amended claim at work: \<open>status_A=='pending'\<close> and \<open>status_A != pending\<close> are both
  true while \<open>A\<close> is pending, and so are the short expression \<open>status_A ==\<close> and
  \<open>state_A == SUCCESS\<close>, whose first token has no prefix.
\<close>

theorem evaluate_condition_forms_witness:
  "is_token ''A'' \<and> is_blank [] \<and> is_blank '' '' \<and> is_op ''!='' \<and>
   is_token [CHR 0x27, CHR ''p'', CHR ''e'', CHR ''n'', CHR ''d'', CHR ''i'', CHR ''n'', CHR ''g'', CHR 0x27] \<and>
   is_token ''pending'' \<and>
   map_of (steps (add_step (new_step ''A'' ''true'') (new_workflow ''w''))) ''A'' = Some (new_step ''A'' ''true'') \<and>
   evaluate_condition (add_step (new_step ''A'' ''true'') (new_workflow ''w''))
     (Some (''status_'' @ ''A'' @ [] @ ''=='' @ [] @ [CHR 0x27, CHR ''p'', CHR ''e'', CHR ''n'', CHR ''d'', CHR ''i'', CHR ''n'', CHR ''g'', CHR 0x27] @ [])) \<and>
   evaluate_condition (add_step (new_step ''A'' ''true'') (new_workflow ''w''))
     (Some (''status_'' @ ''A'' @ '' '' @ ''!='' @ '' '' @ ''pending'' @ [])) \<and>
   length (py_split (replace_eqeq ''status_A =='')) < 3 \<and>
   evaluate_condition (add_step (new_step ''A'' ''true'') (new_workflow ''w'')) (Some ''status_A =='') \<and>
   py_split (replace_eqeq ''state_A == SUCCESS'') = ''state_A'' # [''=='', ''SUCCESS''] \<and>
   \<not> startswith ''status_'' ''state_A'' \<and> \<not> startswith ''result_'' ''state_A'' \<and>
   evaluate_condition (add_step (new_step ''A'' ''true'') (new_workflow ''w'')) (Some ''state_A == SUCCESS'')"
proof -
  let ?w = "add_step (new_step ''A'' ''true'') (new_workflow ''w'')"
  let ?lit = "[CHR 0x27, CHR ''p'', CHR ''e'', CHR ''n'', CHR ''d'', CHR ''i'', CHR ''n'', CHR ''g'', CHR 0x27]"
  have h1: "is_token ''A''" "is_blank []" "is_blank '' ''" "is_token ?lit" "is_token ''pending''"
    by (simp_all add: is_token_def is_blank_def is_space_def)
  have h0: "is_op ''!=''"
    by (simp add: is_op_def is_space_def)
  have h2: "map_of (steps ?w) ''A'' = Some (new_step ''A'' ''true'')"
    by (simp add: add_step_def new_step_def new_workflow_def)
  have h3: "length (py_split (replace_eqeq ''status_A =='')) < 3"
    by (simp add: py_split_def is_space_def)
  have h4: "py_split (replace_eqeq ''state_A == SUCCESS'') = ''state_A'' # [''=='', ''SUCCESS'']"
    by (simp add: py_split_def is_space_def)
  have h5: "\<not> startswith ''status_'' ''state_A''" "\<not> startswith ''result_'' ''state_A''"
    by (simp_all add: startswith_def)
  have v: "py_lower (status_name (status (new_step ''A'' ''true''))) = py_lower (py_strip [CHR 0x27, CHR 0x22] ?lit)"
    by code_simp
  have v2: "py_lower (status_name (status (new_step ''A'' ''true''))) = py_lower (py_strip [CHR 0x27, CHR 0x22] ''pending'')"
    by code_simp
  note t = evaluate_condition_forms[where pre="''status_''" and X="''A''" and w="?w"
      and st="new_step ''A'' ''true''"]
  have c1: "evaluate_condition ?w (Some (''status_'' @ ''A'' @ [] @ ''=='' @ [] @ ?lit @ []))"
    using t[of "[]" "[]" "''==''" ?lit "[]" "[]" "[]" "[]"] h1 h2 v by blast
  have c1': "evaluate_condition ?w (Some (''status_'' @ ''A'' @ '' '' @ ''!='' @ '' '' @ ''pending'' @ []))"
    using t[of "'' ''" "'' ''" "''!=''" "''pending''" "[]" "[]" "[]" "[]"] h0 h1 h2 v2 by blast
  have c2: "evaluate_condition ?w (Some ''status_A =='')"
    using t[of "[]" "[]" "''==''" "[]" "[]" "''status_A ==''" "[]" "[]"] h3 by blast
  have c3: "evaluate_condition ?w (Some ''state_A == SUCCESS'')"
    using t[of "[]" "[]" "''==''" "[]" "[]" "''state_A == SUCCESS''" "''state_A''" "[''=='', ''SUCCESS'']"] h4 h5 by blast
  show ?thesis
    using h0 h1 h2 h3 h4 h5 c1 c1' c2 c3 by blast
qed

text \<open>
  Claim C9 as stated fails: adding a second step with the id \<open>A\<close> succeeds and the step
  stored under \<open>A\<close> is the new one.
\<close>

theorem add_step_existing_counterexample:
  "map_of (steps (add_step (new_step ''A'' ''new'') (add_step (new_step ''A'' ''old'') (new_workflow ''w'')))) ''A''
     = Some (new_step ''A'' ''new'') \<and>
   map_of (steps (add_step (new_step ''A'' ''old'') (new_workflow ''w''))) ''A''
     = Some (new_step ''A'' ''old'') \<and> new_step ''A'' ''new'' \<noteq> new_step ''A'' ''old''"
  by (simp add: add_step_def new_step_def new_workflow_def)

text \<open>
  Claim C9, as amended. Adding a step whose id is present replaces the step stored under
  that id, keeps the order of the ids and every other step, and resets the id's list of
  dependents to the empty list.
\<close>

theorem add_step_existing_replaces:
  assumes "map_of (steps w) (step_id s) \<noteq> None"
  shows "map_of (steps (add_step s w)) (step_id s) = Some s
    \<and> map fst (steps (add_step s w)) = map fst (steps w)
    \<and> (\<forall>k. k \<noteq> step_id s \<longrightarrow> map_of (steps (add_step s w)) k = map_of (steps w) k)
    \<and> map_of (inverse_dependencies (add_step s w)) (step_id s) = Some []"
proof -
  have "step_id s \<in> fst ` set (steps w)"
    using assms by (simp add: map_of_eq_None_iff)
  then have "map fst (AList.update (step_id s) s (steps w)) = map fst (steps w)"
    by (simp add: update_keys)
  then show ?thesis
    by (simp add: add_step_def update_conv')
qed

theorem add_step_existing_replaces_witness:
  "map_of (steps (add_step (new_step ''A'' ''old'') (new_workflow ''w''))) (step_id (new_step ''A'' ''new'')) \<noteq> None \<and>
   map_of (steps (add_step (new_step ''A'' ''new'') (add_step (new_step ''A'' ''old'') (new_workflow ''w''))))
      (step_id (new_step ''A'' ''new'')) = Some (new_step ''A'' ''new'')"
proof -
  have h: "map_of (steps (add_step (new_step ''A'' ''old'') (new_workflow ''w''))) (step_id (new_step ''A'' ''new'')) \<noteq> None"
    by (simp add: add_step_def new_step_def new_workflow_def)
  from add_step_existing_replaces[OF h] h show ?thesis by blast
qed

section \<open>Basic facts about the engine state\<close>

subsection \<open>Association lists\<close>

lemma map_fst_map_entry: "map fst (AList.map_entry k f al) = map fst al"
  by (induction al) auto

lemma map_entry_absent: "map_of al k = None \<Longrightarrow> AList.map_entry k f al = al"
  by (induction al) (auto split: if_splits)

lemma sum_list_map_entry:
  "map_of al k = Some s \<Longrightarrow>
     sum_list (map (\<lambda>p. g (snd p)) (AList.map_entry k f al)) + g s
       = sum_list (map (\<lambda>p. g (snd p)) al) + (g (f s) :: nat)"
  by (induction al) auto

subsection \<open>Field updates of the engine\<close>

lemma upd_step_fields [simp]:
  "ready_queue (upd_step k f e) = ready_queue e"
  "execution_order (upd_step k f e) = execution_order e"
  "inverse_dependencies (workflow (upd_step k f e)) = inverse_dependencies (workflow e)"
  "name (workflow (upd_step k f e)) = name (workflow e)"
  "map fst (steps (workflow (upd_step k f e))) = map fst (steps (workflow e))"
  by (simp_all add: upd_step_def map_fst_map_entry)

lemma get_step_upd_step:
  "get_step (upd_step k f e) k' = (if k' = k then map_option f (get_step e k) else get_step e k')"
  by (auto simp: get_step_def upd_step_def map_of_map_entry split: option.splits)

lemma set_status_fields [simp]:
  "ready_queue (set_status k st e) = ready_queue e"
  "execution_order (set_status k st e) = execution_order e"
  "inverse_dependencies (workflow (set_status k st e)) = inverse_dependencies (workflow e)"
  "name (workflow (set_status k st e)) = name (workflow e)"
  "map fst (steps (workflow (set_status k st e))) = map fst (steps (workflow e))"
  by (simp_all add: set_status_def)

lemma get_step_set_status:
  "get_step (set_status k st e) k' =
     (if k' = k then map_option (\<lambda>s. s\<lparr>status := st\<rparr>) (get_step e k) else get_step e k')"
  by (simp add: set_status_def get_step_upd_step)

lemma get_step_queue_update [simp]: "get_step (e\<lparr>ready_queue := q\<rparr>) k = get_step e k"
  by (simp add: get_step_def)

lemma get_step_log_update [simp]: "get_step (e\<lparr>execution_order := l\<rparr>) k = get_step e k"
  by (simp add: get_step_def)

lemma upd_step_absent: "get_step e k = None \<Longrightarrow> upd_step k f e = e"
  by (simp add: get_step_def upd_step_def map_entry_absent)

subsection \<open>The potential decreases\<close>

lemma potential_upd_step:
  "get_step e k = Some s \<Longrightarrow>
     potential (upd_step k f e) + step_potential s = potential e + step_potential (f s)"
  using sum_list_map_entry[of "steps (workflow e)" k s step_potential f]
  by (simp add: potential_def get_step_def upd_step_def)

lemma potential_queue_update [simp]:
  "potential (e\<lparr>ready_queue := q\<rparr>) + length (ready_queue e) = potential e + length q"
  by (simp add: potential_def)

lemma potential_log_update [simp]:
  "potential (e\<lparr>execution_order := l\<rparr>) = potential e"
  by (simp add: potential_def)

lemma retries_left_status [simp]: "retries_left (s\<lparr>status := st\<rparr>) = retries_left s"
  by (simp add: retries_left_def max_retries_of_def split: option.splits)

lemma potential_set_status_le:
  "st \<noteq> PENDING \<Longrightarrow> potential (set_status k st e) \<le> potential e"
proof (cases "get_step e k")
  case None
  then show ?thesis by (simp add: set_status_def upd_step_absent)
next
  case (Some s)
  assume "st \<noteq> PENDING"
  then have "step_potential (s\<lparr>status := st\<rparr>) \<le> step_potential s"
    by (simp add: step_potential_def)
  then show ?thesis
    using potential_upd_step[OF Some, of "\<lambda>s. s\<lparr>status := st\<rparr>"]
    by (simp add: set_status_def)
qed

lemma potential_set_status_pending:
  "get_step e k = Some s \<Longrightarrow> status s = PENDING \<Longrightarrow> st \<noteq> PENDING \<Longrightarrow>
     potential (set_status k st e) + 2 = potential e"
  using potential_upd_step[of e k s "\<lambda>s. s\<lparr>status := st\<rparr>"]
  by (simp add: set_status_def step_potential_def)

lemma potential_execute_step:
  assumes "execute_step run k e = Inr (b, e')" and "status_of e k \<noteq> Some PENDING"
  shows "potential e' \<le> potential e"
proof -
  obtain s where s: "get_step e k = Some s"
    using assms(1) by (auto simp: execute_step_def split: option.splits)
  let ?e1 = "e\<lparr>execution_order := execution_order e @ [k]\<rparr>"
  have s1: "get_step ?e1 k = Some s" using s by simp
  have np: "status s \<noteq> PENDING" using assms(2) s by (simp add: status_of_def)
  have retry: "potential (upd_step k (\<lambda>s. s\<lparr>retry_count := retry_count s + 1, status := PENDING\<rparr>) ?e1)
                 \<le> potential e"
    if "max_retries_of s = Some m" "int (retry_count s) < m" for m
  proof -
    have "max_retries_of (s\<lparr>retry_count := retry_count s + 1, status := PENDING\<rparr>) = Some m"
      using that by (simp add: max_retries_of_def)
    then have "retries_left (s\<lparr>retry_count := retry_count s + 1, status := PENDING\<rparr>) + 1
                 = retries_left s"
      using that by (simp add: retries_left_def)
    then have "step_potential (s\<lparr>retry_count := retry_count s + 1, status := PENDING\<rparr>)
                 \<le> step_potential s"
      using np by (simp add: step_potential_def)
    then show ?thesis
      using potential_upd_step[OF s1, of "\<lambda>s. s\<lparr>retry_count := retry_count s + 1, status := PENDING\<rparr>"]
      by simp
  qed
  have st: "potential (set_status k x ?e1) \<le> potential e" if "x \<noteq> PENDING" for x
    using potential_set_status_le[OF that, of k ?e1] by simp
  show ?thesis
    using assms(1) s st retry
    by (auto simp: execute_step_def Let_def max_retries_of_def
        split: option.splits if_splits)
qed

lemma potential_skip_loop:
  "skip_loop ts sk e = Inr e' \<Longrightarrow> potential e' \<le> potential e"
proof (induction ts sk e rule: skip_loop.induct)
  case (1 skipped e)
  then show ?case by simp
next
  case (2 skip_id to_skip skipped e)
  show ?case
  proof (cases "skip_id \<in> skipped")
    case True
    then show ?thesis using 2 by simp
  next
    case False
    then obtain s where s: "get_step e skip_id = Some s"
      using 2(4) by (auto split: option.splits)
    show ?thesis
    proof (cases "is_active s")
      case True
      then obtain ds where ds: "map_of (inverse_dependencies (workflow e)) skip_id = Some ds"
        using 2(4) False s by (auto split: option.splits)
      let ?e = "(set_status skip_id SKIPPED e)\<lparr>ready_queue := remove1 skip_id (ready_queue e)\<rparr>"
      have "skip_loop (to_skip @ ds) (insert skip_id skipped) ?e = Inr e'"
        using 2(4) False s True ds by simp
      then have "potential e' \<le> potential ?e"
        using 2(2)[OF False s True ds] by simp
      moreover have "potential ?e \<le> potential (set_status skip_id SKIPPED e)"
        using potential_queue_update[where e="set_status skip_id SKIPPED e" and q="remove1 skip_id (ready_queue e)"]
          length_remove1[of skip_id "ready_queue e"]
        by (simp split: if_splits)
      moreover have "potential (set_status skip_id SKIPPED e) \<le> potential e"
        by (rule potential_set_status_le) simp
      ultimately show ?thesis by linarith
    next
      case F: False
      then show ?thesis using 2(3)[OF False s F] 2(4) False s by simp
    qed
  qed
qed

lemma potential_skip_dependents:
  "skip_dependents k e = Inr e' \<Longrightarrow> potential e' \<le> potential e"
  by (auto simp: skip_dependents_def potential_skip_loop split: option.splits)

lemma potential_update_ready_step:
  assumes "update_ready_step k e = Inr e'"
  shows "potential e' \<le> potential e"
proof (cases "get_step e k")
  case None
  then show ?thesis using assms by (simp add: update_ready_step_def)
next
  case (Some s)
  show ?thesis
  proof (cases "status s = PENDING")
    case False
    then show ?thesis using assms Some by (simp add: update_ready_step_def)
  next
    case True
    have r: "potential ((set_status k READY e)\<lparr>ready_queue := ready_queue e @ [k]\<rparr>) \<le> potential e"
      using potential_set_status_pending[OF Some True, of READY]
        potential_queue_update[where e="set_status k READY e" and q="ready_queue e @ [k]"]
      by simp
    have sk: "potential (set_status k SKIPPED e) \<le> potential e"
      by (rule potential_set_status_le) simp
    show ?thesis
      using assms Some True r sk
      by (auto simp: update_ready_step_def split: sum.splits if_splits)
  qed
qed

lemma potential_update_ready_loop:
  "update_ready_loop ks e = Inr e' \<Longrightarrow> potential e' \<le> potential e"
proof (induction ks arbitrary: e)
  case Nil
  then show ?case by simp
next
  case (Cons k ks)
  then show ?case
    by (auto split: sum.splits dest!: potential_update_ready_step) fastforce
qed

lemma potential_update_ready_queue:
  "update_ready_queue e = Inr e' \<Longrightarrow> potential e' \<le> potential e"
  by (simp add: update_ready_queue_def potential_update_ready_loop)

subsection \<open>Choosing the next step\<close>

lemma level_keys_fst: "level_keys lv ks = Inr kls \<Longrightarrow> map fst kls = ks"
  by (induction ks arbitrary: kls) (auto split: option.splits sum.splits)

lemma min_by_mem: "min_by p ps \<in> fst ` set (p # ps)"
  by (induction p ps rule: min_by.induct) auto

lemma max_by_mem: "max_by p ps \<in> fst ` set (p # ps)"
  by (induction p ps rule: max_by.induct) auto

lemma get_next_steps_mem:
  assumes "get_next_steps s q = Inr (x # xs)"
  shows "x \<in> set q \<and> xs = []"
proof (cases s)
  case (BreadthFirstStrategy lv)
  then obtain p ps where k: "level_keys lv q = Inr (p # ps)" and x: "x = min_by p ps" "xs = []"
    using assms by (auto split: if_splits sum.splits list.splits)
  have "x \<in> fst ` set (p # ps)" using x min_by_mem by simp
  then show ?thesis using level_keys_fst[OF k] x
    by (metis list.set_map)
next
  case (DepthFirstStrategy lv)
  then obtain p ps where k: "level_keys lv q = Inr (p # ps)" and x: "x = max_by p ps" "xs = []"
    using assms by (auto split: if_splits sum.splits list.splits)
  have "x \<in> fst ` set (p # ps)" using x max_by_mem by simp
  then show ?thesis using level_keys_fst[OF k] x
    by (metis list.set_map)
qed

lemma get_next_step_Some:
  assumes "get_next_step strat e = Inr (Some k, e1)"
  shows "workflow e1 = workflow e" and "execution_order e1 = execution_order e"
    and "k \<in> set (ready_queue e)"
    and "length (remove1 k (ready_queue e1)) < length (ready_queue e)"
    and "set (remove1 k (ready_queue e1)) \<subseteq> set (ready_queue e)"
    and "distinct (ready_queue e) \<Longrightarrow> remove1 k (ready_queue e1) = remove1 k (ready_queue e)"
proof -
  have "workflow e1 = workflow e \<and> execution_order e1 = execution_order e \<and>
        k \<in> set (ready_queue e) \<and>
        length (remove1 k (ready_queue e1)) < length (ready_queue e) \<and>
        set (remove1 k (ready_queue e1)) \<subseteq> set (ready_queue e) \<and>
        (distinct (ready_queue e) \<longrightarrow> remove1 k (ready_queue e1) = remove1 k (ready_queue e))"
  proof (cases strat)
    case None
    then obtain q where q: "ready_queue e = k # q" "e1 = e\<lparr>ready_queue := q\<rparr>"
      using assms by (auto simp: get_next_step_def split: list.splits)
    have "length (remove1 k q) \<le> length q"
      by (simp add: length_remove1)
    moreover have "set (remove1 k q) \<subseteq> set q"
      by (rule set_remove1_subset)
    ultimately show ?thesis
      using q by (auto simp: remove1_idem)
  next
    case (Some s)
    then obtain xs where x: "get_next_steps s (ready_queue e) = Inr (k # xs)" and e1: "e1 = e"
      using assms by (auto simp: get_next_step_def split: sum.splits list.splits)
    have k: "k \<in> set (ready_queue e)"
      using get_next_steps_mem[OF x] by simp
    then have "length (remove1 k (ready_queue e)) < length (ready_queue e)"
      using length_pos_if_in_set[OF k] by (simp add: length_remove1)
    moreover have "set (remove1 k (ready_queue e)) \<subseteq> set (ready_queue e)"
      by (rule set_remove1_subset)
    ultimately show ?thesis
      using e1 k by simp
  qed
  then show "workflow e1 = workflow e" and "execution_order e1 = execution_order e"
    and "k \<in> set (ready_queue e)"
    and "length (remove1 k (ready_queue e1)) < length (ready_queue e)"
    and "set (remove1 k (ready_queue e1)) \<subseteq> set (ready_queue e)"
    and "distinct (ready_queue e) \<Longrightarrow> remove1 k (ready_queue e1) = remove1 k (ready_queue e)"
    by blast+
qed

lemma get_next_step_nonempty:
  assumes "get_next_step strat e = Inr (None, e1)"
  shows "ready_queue e = []"
proof (cases strat)
  case None
  then show ?thesis using assms by (auto simp: get_next_step_def split: list.splits)
next
  case (Some s)
  then have "get_next_steps s (ready_queue e) = Inr []"
    using assms by (auto simp: get_next_step_def split: sum.splits list.splits)
  then show ?thesis
    by (cases s) (auto split: if_splits sum.splits list.splits dest: level_keys_fst)
qed

subsection \<open>One pass of the sequential loop\<close>

lemma sequential_body_continue:
  assumes "sequential_body run strat e = Inr (True, e6)"
  obtains k e1 success e4 e5 where
    "get_next_step strat e = Inr (Some k, e1)"
    "execute_step run k (set_status k RUNNING (e1\<lparr>ready_queue := remove1 k (ready_queue e1)\<rparr>))
       = Inr (success, e4)"
    "(if \<not> success \<and> status_of e4 k = Some FAILED then skip_dependents k e4 else Inr e4) = Inr e5"
    "update_ready_queue e5 = Inr e6"
  using assms
  by (auto simp: sequential_body_def Let_def status_of_def
      split: sum.splits option.splits prod.splits if_splits)

lemma sequential_body_break:
  assumes "sequential_body run strat e = Inr (False, e')"
  shows "ready_queue e = []"
proof -
  obtain e1 where "get_next_step strat e = Inr (None, e1)"
    using assms
    by (auto simp: sequential_body_def Let_def split: sum.splits option.splits prod.splits if_splits)
  then show ?thesis by (rule get_next_step_nonempty)
qed

lemma potential_sequential_body:
  assumes "sequential_body run strat e = Inr (True, e6)"
  shows "potential e6 < potential e"
proof -
  from assms obtain k e1 success e4 e5 where
    n: "get_next_step strat e = Inr (Some k, e1)" and
    x: "execute_step run k (set_status k RUNNING (e1\<lparr>ready_queue := remove1 k (ready_queue e1)\<rparr>))
       = Inr (success, e4)" and
    s: "(if \<not> success \<and> status_of e4 k = Some FAILED then skip_dependents k e4 else Inr e4) = Inr e5" and
    u: "update_ready_queue e5 = Inr e6"
    by (rule sequential_body_continue)
  let ?e2 = "e1\<lparr>ready_queue := remove1 k (ready_queue e1)\<rparr>"
  let ?e3 = "set_status k RUNNING ?e2"
  have w: "workflow e1 = workflow e" and l: "length (remove1 k (ready_queue e1)) < length (ready_queue e)"
    using get_next_step_Some[OF n] by auto
  have "potential ?e2 < potential e"
    using w l by (simp add: potential_def)
  moreover have "potential ?e3 \<le> potential ?e2"
    by (rule potential_set_status_le) simp
  moreover have "status_of ?e3 k \<noteq> Some PENDING"
    by (auto simp: status_of_def get_step_set_status)
  then have "potential e4 \<le> potential ?e3"
    using potential_execute_step[OF x] by simp
  moreover have "potential e5 \<le> potential e4"
    using s potential_skip_dependents by (auto split: if_splits)
  moreover have "potential e6 \<le> potential e5"
    using u by (rule potential_update_ready_queue)
  ultimately show ?thesis by linarith
qed

subsection \<open>The sequential loop ends\<close>

lemma execute_sequential_terminates: "\<exists>r. execute_sequential run strat e = Some r"
proof (induction "potential e" arbitrary: e rule: less_induct)
  case less
  show ?case
  proof (cases "ready_queue e = []")
    case True
    then show ?thesis by (subst execute_sequential.simps) simp
  next
    case False
    show ?thesis
    proof (cases "sequential_body run strat e")
      case (Inl err)
      then show ?thesis using False by (subst execute_sequential.simps) simp
    next
      case (Inr p)
      obtain c e' where p: "p = (c, e')" by (cases p)
      show ?thesis
      proof (cases c)
        case True
        then have "potential e' < potential e"
          using Inr p potential_sequential_body by simp
        then obtain r where "execute_sequential run strat e' = Some r"
          using less by blast
        then show ?thesis
          using False Inr p True by (subst execute_sequential.simps) simp
      next
        case F: False
        then show ?thesis
          using False Inr p by (subst execute_sequential.simps) simp
      qed
    qed
  qed
qed

subsection \<open>Invariants of the sequential loop\<close>

lemma execute_sequential_invariant:
  assumes "execute_sequential run strat e = Some (Inr e')" and "I e"
    and "\<And>e e'. I e \<Longrightarrow> ready_queue e \<noteq> [] \<Longrightarrow> sequential_body run strat e = Inr (True, e')
           \<Longrightarrow> I e'"
  shows "I e' \<and> ready_queue e' = []"
  using assms(1,2)
proof (induction "potential e" arbitrary: e rule: less_induct)
  case less
  show ?case
  proof (cases "ready_queue e = []")
    case True
    then have "execute_sequential run strat e = Some (Inr e)"
      by (subst execute_sequential.simps) simp
    then show ?thesis using less.prems True by simp
  next
    case False
    show ?thesis
    proof (cases "sequential_body run strat e")
      case (Inl err)
      then have "execute_sequential run strat e = Some (Inl err)"
        using False by (subst execute_sequential.simps) simp
      then show ?thesis using less.prems by simp
    next
      case (Inr p)
      obtain c e1 where p: "p = (c, e1)" by (cases p)
      show ?thesis
      proof (cases c)
        case True
        have "execute_sequential run strat e = execute_sequential run strat e1"
          using False Inr p True by (subst execute_sequential.simps) simp
        then have r: "execute_sequential run strat e1 = Some (Inr e')"
          using less.prems by simp
        have "potential e1 < potential e"
          using Inr p True potential_sequential_body by simp
        moreover have "I e1"
          using assms(3)[OF less.prems(2) False] Inr p True by simp
        ultimately show ?thesis
          using less.hyps r by blast
      next
        case F: False
        then have "sequential_body run strat e = Inr (False, e1)"
          using Inr p by simp
        then have "ready_queue e = []"
          by (rule sequential_body_break)
        then show ?thesis using False by simp
      qed
    qed
  qed
qed

subsection \<open>The graph does not change\<close>

lemma same_graph_refl [simp]: "same_graph w w"
  by (simp add: same_graph_def)

lemma same_graph_trans: "same_graph w w' \<Longrightarrow> same_graph w' w'' \<Longrightarrow> same_graph w w''"
  by (simp add: same_graph_def)

lemma static_map_entry:
  "(\<And>s. static (f s) = static s) \<Longrightarrow>
     map (\<lambda>p. (fst p, static (snd p))) (AList.map_entry k f al)
       = map (\<lambda>p. (fst p, static (snd p))) al"
  by (induction al) auto

lemma same_graph_upd_step:
  "(\<And>s. static (f s) = static s) \<Longrightarrow> same_graph (workflow e) (workflow (upd_step k f e))"
  by (simp add: same_graph_def upd_step_def static_map_entry)

lemma same_graph_set_status: "same_graph (workflow e) (workflow (set_status k st e))"
  unfolding set_status_def by (rule same_graph_upd_step) (simp add: static_def)

lemma same_graph_keys: "same_graph w w' \<Longrightarrow> map fst (steps w') = map fst (steps w)"
proof -
  assume "same_graph w w'"
  then have "map fst (map (\<lambda>p. (fst p, static (snd p))) (steps w'))
               = map fst (map (\<lambda>p. (fst p, static (snd p))) (steps w))"
    by (simp add: same_graph_def)
  then show ?thesis by (simp add: comp_def)
qed

lemma same_graph_map_of:
  assumes "same_graph w w'"
  shows "map_option static (map_of (steps w') k) = map_option static (map_of (steps w) k)"
proof -
  have "map_of (map (\<lambda>p. (fst p, static (snd p))) al) k = map_option static (map_of al k)" for al
    by (induction al) auto
  then have h: "map_of (map (\<lambda>p. (fst p, static (snd p))) al) k = map_option static (map_of al k)" for al
    by blast
  have "map_of (map (\<lambda>p. (fst p, static (snd p))) (steps w')) k
          = map_of (map (\<lambda>p. (fst p, static (snd p))) (steps w)) k"
    using assms by (simp add: same_graph_def)
  then show ?thesis unfolding h .
qed

lemma static_fields:
  assumes "static s = static s'"
  shows "dependencies s = dependencies s'" and "condition s = condition s'"
    and "failure_strategy s = failure_strategy s'" and "command s = command s'"
    and "step_id s = step_id s'" and "parallel_with s = parallel_with s'"
proof -
  have "dependencies (static s) = dependencies (static s')"
    and "condition (static s) = condition (static s')"
    and "failure_strategy (static s) = failure_strategy (static s')"
    and "command (static s) = command (static s')"
    and "step_id (static s) = step_id (static s')"
    and "parallel_with (static s) = parallel_with (static s')"
    using assms by simp_all
  then show "dependencies s = dependencies s'" and "condition s = condition s'"
    and "failure_strategy s = failure_strategy s'" and "command s = command s'"
    and "step_id s = step_id s'" and "parallel_with s = parallel_with s'"
    by (simp_all add: static_def)
qed

lemma same_graph_step:
  assumes "same_graph w w'" and "map_of (steps w') k = Some s'"
  obtains s where "map_of (steps w) k = Some s" and "static s = static s'"
  using same_graph_map_of[OF assms(1), of k] assms(2) by (cases "map_of (steps w) k") auto

lemma same_graph_step':
  assumes "same_graph w w'" and "map_of (steps w) k = Some s"
  obtains s' where "map_of (steps w') k = Some s'" and "static s = static s'"
  using same_graph_map_of[OF assms(1), of k] assms(2) by (cases "map_of (steps w') k") auto

lemma same_graph_deps_map: "same_graph w w' \<Longrightarrow> deps_map w' k = deps_map w k"
  using same_graph_map_of[of w w' k]
  by (auto simp: deps_map_def split: option.splits dest: static_fields(1))

lemma same_graph_dep_rel: "same_graph w w' \<Longrightarrow> dep_rel w' = dep_rel w"
  by (simp add: dep_rel_def same_graph_deps_map)

lemma same_graph_inverse: "same_graph w w' \<Longrightarrow> inverse_dependencies w' = inverse_dependencies w"
  by (simp add: same_graph_def)

subsection \<open>Status of a step\<close>

lemma status_of_upd_step:
  "status_of (upd_step k f e) k' =
     (if k' = k then map_option (\<lambda>s. status (f s)) (get_step e k) else status_of e k')"
  by (simp add: status_of_def get_step_upd_step option.map_comp comp_def)

lemma status_of_set_status:
  "status_of (set_status k st e) k' =
     (if k' = k then map_option (\<lambda>_. st) (status_of e k) else status_of e k')"
  by (simp add: status_of_def get_step_set_status option.map_comp comp_def)

lemma status_of_queue_update [simp]: "status_of (e\<lparr>ready_queue := q\<rparr>) k = status_of e k"
  by (simp add: status_of_def)

lemma status_of_log_update [simp]: "status_of (e\<lparr>execution_order := l\<rparr>) k = status_of e k"
  by (simp add: status_of_def)

lemma deps_success_iff:
  "deps_success e k \<longleftrightarrow> (\<forall>d \<in> set (deps_map (workflow e) k). status_of e d = Some SUCCESS)"
  by (simp add: deps_success_def list_all_iff)

lemma deps_success_cong:
  assumes "same_graph (workflow e) (workflow e')"
    and "\<And>d. d \<in> set (deps_map (workflow e) k) \<Longrightarrow>
           (status_of e' d = Some SUCCESS) = (status_of e d = Some SUCCESS)"
  shows "deps_success e' k = deps_success e k"
  using assms by (simp add: deps_success_iff same_graph_deps_map)

subsection \<open>Effect of running a step\<close>

lemma execute_step_effect:
  assumes "execute_step run k e = Inr (b, e')"
  obtains s where "get_step e k = Some s"
    and "ready_queue e' = ready_queue e"
    and "execution_order e' = execution_order e @ [k]"
    and "same_graph (workflow e) (workflow e')"
    and "\<And>k'. k' \<noteq> k \<Longrightarrow> get_step e' k' = get_step e k'"
    and "run (length (execution_order e)) (command s) = Some b"
    and "b \<Longrightarrow> get_step e' k = Some (s\<lparr>status := SUCCESS\<rparr>)"
    and "\<not> b \<Longrightarrow>
           (case max_retries_of s of
              Some m \<Rightarrow>
                if int (retry_count s) < m
                then get_step e' k = Some (s\<lparr>retry_count := retry_count s + 1, status := PENDING\<rparr>)
                else get_step e' k = Some (s\<lparr>status := FAILED\<rparr>)
            | None \<Rightarrow> get_step e' k = Some (s\<lparr>status := FAILED\<rparr>))"
proof -
  obtain s where s: "get_step e k = Some s"
    using assms by (auto simp: execute_step_def split: option.splits)
  let ?e1 = "e\<lparr>execution_order := execution_order e @ [k]\<rparr>"
  let ?ok = "run (length (execution_order e)) (command s)"
  have w1: "workflow ?e1 = workflow e" by simp
  have g: "same_graph (workflow e) (workflow (set_status k x ?e1))" for x
    using same_graph_set_status[of ?e1 k x] by simp
  have g2: "same_graph (workflow e)
              (workflow (upd_step k (\<lambda>s. s\<lparr>retry_count := retry_count s + 1, status := PENDING\<rparr>) ?e1))"
    using same_graph_upd_step[of "\<lambda>s. s\<lparr>retry_count := retry_count s + 1, status := PENDING\<rparr>" ?e1 k]
    by (simp add: static_def)
  have cases: "e' = set_status k SUCCESS ?e1 \<and> b \<and> ?ok = Some True \<or>
     e' = set_status k FAILED ?e1 \<and> \<not> b \<and> ?ok = Some False \<and>
        (case max_retries_of s of Some m \<Rightarrow> \<not> int (retry_count s) < m | None \<Rightarrow> True) \<or>
     e' = upd_step k (\<lambda>s. s\<lparr>retry_count := retry_count s + 1, status := PENDING\<rparr>) ?e1 \<and> \<not> b \<and> ?ok = Some False \<and>
        (\<exists>m. max_retries_of s = Some m \<and> int (retry_count s) < m)"
    using assms s
    by (auto simp: execute_step_def Let_def max_retries_of_def split: option.splits if_splits)
  show ?thesis
  proof (rule that[OF s])
    show "ready_queue e' = ready_queue e" using cases by auto
    show "execution_order e' = execution_order e @ [k]" using cases by auto
    show "same_graph (workflow e) (workflow e')" using cases g g2 by auto
    show "\<And>k'. k' \<noteq> k \<Longrightarrow> get_step e' k' = get_step e k'"
      using cases by (auto simp: get_step_set_status get_step_upd_step)
    show "?ok = Some b" using cases by auto
    show "b \<Longrightarrow> get_step e' k = Some (s\<lparr>status := SUCCESS\<rparr>)"
      using cases s by (auto simp: get_step_set_status)
    show "\<not> b \<Longrightarrow>
           (case max_retries_of s of
              Some m \<Rightarrow>
                if int (retry_count s) < m
                then get_step e' k = Some (s\<lparr>retry_count := retry_count s + 1, status := PENDING\<rparr>)
                else get_step e' k = Some (s\<lparr>status := FAILED\<rparr>)
            | None \<Rightarrow> get_step e' k = Some (s\<lparr>status := FAILED\<rparr>))"
      using cases s by (auto simp: get_step_set_status get_step_upd_step split: option.splits)
  qed
qed

lemma execute_step_status:
  assumes "execute_step run k e = Inr (b, e')"
  shows "status_of e' k \<in> {Some SUCCESS, Some FAILED, Some PENDING}"
    and "b \<longleftrightarrow> status_of e' k = Some SUCCESS"
    and "\<And>k'. k' \<noteq> k \<Longrightarrow> status_of e' k' = status_of e k'"
proof -
  from assms obtain s where
    o: "\<And>k'. k' \<noteq> k \<Longrightarrow> get_step e' k' = get_step e k'"
    and t: "b \<Longrightarrow> get_step e' k = Some (s\<lparr>status := SUCCESS\<rparr>)"
    and f: "\<not> b \<Longrightarrow>
           (case max_retries_of s of
              Some m \<Rightarrow>
                if int (retry_count s) < m
                then get_step e' k = Some (s\<lparr>retry_count := retry_count s + 1, status := PENDING\<rparr>)
                else get_step e' k = Some (s\<lparr>status := FAILED\<rparr>)
            | None \<Rightarrow> get_step e' k = Some (s\<lparr>status := FAILED\<rparr>))"
    by (rule execute_step_effect) blast
  show "status_of e' k \<in> {Some SUCCESS, Some FAILED, Some PENDING}"
    using t f by (cases b) (auto simp: status_of_def split: option.splits if_splits)
  show "b \<longleftrightarrow> status_of e' k = Some SUCCESS"
    using t f by (cases b) (auto simp: status_of_def split: option.splits if_splits)
  show "\<And>k'. k' \<noteq> k \<Longrightarrow> status_of e' k' = status_of e k'"
    using o by (simp add: status_of_def)
qed

subsection \<open>Well-formed workflows\<close>

lemma dep_rel_iff: "(d, d') \<in> dep_rel w \<longleftrightarrow> (\<exists>s. map_of (steps w) d = Some s \<and> d' \<in> set (dependencies s))"
  by (cases "map_of (steps w) d") (auto simp: dep_rel_def deps_map_def)

lemma dep_rel_key: "(d, d') \<in> dep_rel w \<Longrightarrow> d \<in> fst ` set (steps w)"
  by (auto simp: dep_rel_iff dest: map_of_SomeD intro: rev_image_eqI)

lemma dep_rel_trancl_key: "(d, d') \<in> (dep_rel w)\<^sup>+ \<Longrightarrow> d \<in> fst ` set (steps w)"
  by (auto dest: tranclD dep_rel_key)

lemma wf_dep_key: "wf_workflow w \<Longrightarrow> (d, d') \<in> dep_rel w \<Longrightarrow> d' \<in> fst ` set (steps w)"
  by (auto simp: wf_workflow_def dep_rel_iff dest!: map_of_SomeD) force

lemma wf_deps_keys: "wf_workflow w \<Longrightarrow> set (deps_map w k) \<subseteq> fst ` set (steps w)"
  using wf_dep_key[of w k] by (auto simp: dep_rel_def)

lemma wf_inverse:
  "wf_workflow w \<Longrightarrow> k \<in> fst ` set (steps w) \<Longrightarrow>
     \<exists>ds. map_of (inverse_dependencies w) k = Some ds \<and> set ds = {d. (d, k) \<in> dep_rel w}"
proof -
  assume w: "wf_workflow w" and k: "k \<in> fst ` set (steps w)"
  then obtain ds where ds: "map_of (inverse_dependencies w) k = Some ds"
    "set ds = {d \<in> fst ` set (steps w). k \<in> set (deps_map w d)}"
    unfolding wf_workflow_def by blast
  have "{d \<in> fst ` set (steps w). k \<in> set (deps_map w d)} = {d. (d, k) \<in> dep_rel w}"
    using dep_rel_key[of _ k w] by (auto simp: dep_rel_def)
  then show ?thesis using ds by auto
qed

lemma get_step_key: "get_step e k \<noteq> None \<longleftrightarrow> k \<in> set (map fst (steps (workflow e)))"
  by (simp add: get_step_def map_of_eq_None_iff)

lemma same_graph_get_step_key:
  "same_graph w (workflow e) \<Longrightarrow> get_step e k \<noteq> None \<longleftrightarrow> k \<in> fst ` set (steps w)"
  using same_graph_keys[of w "workflow e"] get_step_key[of e k] by simp

lemma status_of_Some_key:
  "same_graph w (workflow e) \<Longrightarrow> status_of e k = Some st \<Longrightarrow> k \<in> fst ` set (steps w)"
  using same_graph_get_step_key[of w e k] by (auto simp: status_of_def)

subsection \<open>Effect of the skip cascade\<close>

lemma skip_loop_frame:
  "skip_loop ts sk e = Inr e' \<Longrightarrow>
     same_graph (workflow e) (workflow e') \<and> execution_order e' = execution_order e \<and>
     set (ready_queue e') \<subseteq> set (ready_queue e) \<and>
     (distinct (ready_queue e) \<longrightarrow> distinct (ready_queue e')) \<and>
     (\<forall>x. get_step e' x = get_step e x \<or>
          (\<exists>s. get_step e x = Some s \<and> is_active s \<and> get_step e' x = Some (s\<lparr>status := SKIPPED\<rparr>)))"
proof (induction ts sk e rule: skip_loop.induct)
  case (1 skipped e)
  then show ?case by simp
next
  case (2 skip_id to_skip skipped e)
  show ?case
  proof (cases "skip_id \<in> skipped")
    case True
    then show ?thesis using 2 by simp
  next
    case False
    then obtain s where s: "get_step e skip_id = Some s"
      using 2(4) by (auto split: option.splits)
    show ?thesis
    proof (cases "is_active s")
      case F: False
      then show ?thesis using 2(3)[OF False s F] 2(4) False s by simp
    next
      case True
      then obtain ds where ds: "map_of (inverse_dependencies (workflow e)) skip_id = Some ds"
        using 2(4) False s by (auto split: option.splits)
      let ?e = "(set_status skip_id SKIPPED e)\<lparr>ready_queue := remove1 skip_id (ready_queue e)\<rparr>"
      have r: "skip_loop (to_skip @ ds) (insert skip_id skipped) ?e = Inr e'"
        using 2(4) False s True ds by simp
      note ih = 2(2)[OF False s True ds r]
      have g: "same_graph (workflow e) (workflow ?e)"
        using same_graph_set_status[of e skip_id SKIPPED] by simp
      have q: "set (ready_queue ?e) \<subseteq> set (ready_queue e)"
        using set_remove1_subset[of skip_id "ready_queue e"] by simp
      have st: "get_step ?e x = get_step e x \<or>
          (\<exists>s. get_step e x = Some s \<and> is_active s \<and> get_step ?e x = Some (s\<lparr>status := SKIPPED\<rparr>))" for x
        using s True by (auto simp: get_step_set_status)
      have na: "\<not> is_active (s'\<lparr>status := SKIPPED\<rparr>)" for s' :: step
        by (simp add: is_active_def)
      have "get_step e' x = get_step e x \<or>
          (\<exists>s. get_step e x = Some s \<and> is_active s \<and> get_step e' x = Some (s\<lparr>status := SKIPPED\<rparr>))" for x
        using ih st[of x] na by (metis option.inject)
      then show ?thesis
        using ih g q same_graph_trans[OF g] by auto
    qed
  qed
qed

lemma skip_dependents_frame:
  "skip_dependents k e = Inr e' \<Longrightarrow>
     same_graph (workflow e) (workflow e') \<and> execution_order e' = execution_order e \<and>
     set (ready_queue e') \<subseteq> set (ready_queue e) \<and>
     (distinct (ready_queue e) \<longrightarrow> distinct (ready_queue e')) \<and>
     (\<forall>x. get_step e' x = get_step e x \<or>
          (\<exists>s. get_step e x = Some s \<and> is_active s \<and> get_step e' x = Some (s\<lparr>status := SKIPPED\<rparr>)))"
  by (auto simp: skip_dependents_def split: option.splits dest!: skip_loop_frame)

lemma skip_loop_cascade:
  assumes wf: "wf_workflow w" and D: "D = {d. (d, k) \<in> (dep_rel w)\<^sup>+}"
  shows "same_graph w (workflow e) \<Longrightarrow> set ts \<subseteq> D \<Longrightarrow>
     (\<forall>d\<in>D. status_of e d = Some PENDING \<or> status_of e d = Some SKIPPED) \<Longrightarrow>
     (\<forall>x\<in>sk. status_of e x = Some SKIPPED) \<Longrightarrow>
     (\<forall>d d'. (d, d') \<in> dep_rel w \<longrightarrow> (d' = k \<or> d' \<in> D \<and> status_of e d' = Some SKIPPED)
         \<longrightarrow> status_of e d = Some SKIPPED \<or> d \<in> set ts) \<Longrightarrow>
     (\<forall>d\<in>D. d \<notin> set (ready_queue e)) \<Longrightarrow>
     \<exists>e'. skip_loop ts sk e = Inr e' \<and>
          (\<forall>d\<in>D. status_of e' d = Some SKIPPED) \<and>
          (\<forall>x. x \<notin> D \<longrightarrow> get_step e' x = get_step e x) \<and>
          (\<forall>x\<in>D. get_step e' x = map_option (\<lambda>s. s\<lparr>status := SKIPPED\<rparr>) (get_step e x)) \<and>
          ready_queue e' = ready_queue e"
proof (induction ts sk e rule: skip_loop.induct)
  case (1 skipped e)
  have edge: "\<And>d d'. (d, d') \<in> dep_rel w \<Longrightarrow> d' = k \<or> d' \<in> D \<and> status_of e d' = Some SKIPPED
                 \<Longrightarrow> status_of e d = Some SKIPPED"
    using 1(5) by fastforce
  have all: "status_of e d = Some SKIPPED" if "(d, k) \<in> (dep_rel w)\<^sup>+" for d
    using that
  proof (induction rule: converse_trancl_induct)
    case (base y)
    then show ?case using edge by blast
  next
    case (step y z)
    then show ?case using edge[of y z] D by blast
  qed
  have "get_step e x = map_option (\<lambda>s. s\<lparr>status := SKIPPED\<rparr>) (get_step e x)" if "x \<in> D" for x
  proof -
    have "status_of e x = Some SKIPPED" using all that D by simp
    then obtain s where "get_step e x = Some s" "status s = SKIPPED"
      by (auto simp: status_of_def)
    then show ?thesis by simp
  qed
  then show ?case using all D by simp
next
  case (2 skip_id to_skip skipped e)
  note g = 2(4) and sub = 2(5) and p1 = 2(6) and sk = 2(7) and edge = 2(8) and q = 2(9)
  have tD: "skip_id \<in> D" using sub by simp
  have nonactive: ?case if sk_t: "status_of e skip_id = Some SKIPPED"
    and ih: "\<lbrakk>same_graph w (workflow e); set to_skip \<subseteq> D;
        \<forall>d\<in>D. status_of e d = Some PENDING \<or> status_of e d = Some SKIPPED;
        \<forall>x\<in>skipped. status_of e x = Some SKIPPED;
        \<forall>d d'. (d, d') \<in> dep_rel w \<longrightarrow> (d' = k \<or> d' \<in> D \<and> status_of e d' = Some SKIPPED)
           \<longrightarrow> status_of e d = Some SKIPPED \<or> d \<in> set to_skip;
        \<forall>d\<in>D. d \<notin> set (ready_queue e)\<rbrakk> \<Longrightarrow>
       \<exists>e'. skip_loop to_skip skipped e = Inr e' \<and>
          (\<forall>d\<in>D. status_of e' d = Some SKIPPED) \<and>
          (\<forall>x. x \<notin> D \<longrightarrow> get_step e' x = get_step e x) \<and>
          (\<forall>x\<in>D. get_step e' x = map_option (\<lambda>s. s\<lparr>status := SKIPPED\<rparr>) (get_step e x)) \<and>
          ready_queue e' = ready_queue e"
    and eq: "skip_loop (skip_id # to_skip) skipped e = skip_loop to_skip skipped e"
  proof -
    have "\<forall>d d'. (d, d') \<in> dep_rel w \<longrightarrow> (d' = k \<or> d' \<in> D \<and> status_of e d' = Some SKIPPED)
           \<longrightarrow> status_of e d = Some SKIPPED \<or> d \<in> set to_skip"
      using edge sk_t by auto
    then show ?thesis
      using ih g sub p1 sk q eq by simp
  qed
  show ?case
  proof (cases "skip_id \<in> skipped")
    case True
    then have "status_of e skip_id = Some SKIPPED" using sk by simp
    then show ?thesis
      using nonactive 2(1)[OF True] True by simp
  next
    case False
    have "status_of e skip_id = Some PENDING \<or> status_of e skip_id = Some SKIPPED"
      using p1 tD by simp
    then obtain s where s: "get_step e skip_id = Some s"
      and ss: "status s = PENDING \<or> status s = SKIPPED"
      by (auto simp: status_of_def)
    show ?thesis
    proof (cases "is_active s")
      case F: False
      then have "status_of e skip_id = Some SKIPPED"
        using s ss by (auto simp: status_of_def is_active_def)
      moreover have "skip_loop (skip_id # to_skip) skipped e = skip_loop to_skip skipped e"
        using False s F by simp
      ultimately show ?thesis
        using nonactive 2(3)[OF False s F] by simp
    next
      case True
      then have pend: "status s = PENDING"
        using ss by (auto simp: is_active_def)
      have key: "skip_id \<in> fst ` set (steps w)"
        using tD D dep_rel_trancl_key by auto
      obtain ds where ds: "map_of (inverse_dependencies w) skip_id = Some ds"
        and dset: "set ds = {d. (d, skip_id) \<in> dep_rel w}"
        using wf_inverse[OF wf key] by blast
      have ds': "map_of (inverse_dependencies (workflow e)) skip_id = Some ds"
        using ds same_graph_inverse[OF g] by simp
      let ?e = "(set_status skip_id SKIPPED e)\<lparr>ready_queue := remove1 skip_id (ready_queue e)\<rparr>"
      have eq: "skip_loop (skip_id # to_skip) skipped e
                  = skip_loop (to_skip @ ds) (insert skip_id skipped) ?e"
        using False s True ds' by simp
      have "status_of e skip_id = Some (status s)"
        using s by (simp add: status_of_def)
      then have st: "status_of ?e x = (if x = skip_id then Some SKIPPED else status_of e x)" for x
        by (simp add: status_of_set_status)
      have g': "same_graph w (workflow ?e)"
        using same_graph_trans[OF g same_graph_set_status[of e skip_id SKIPPED]] by simp
      have sub': "set (to_skip @ ds) \<subseteq> D"
      proof -
        have "d \<in> D" if "d \<in> set ds" for d
        proof -
          have "(d, skip_id) \<in> dep_rel w" using that dset by simp
          moreover have "(skip_id, k) \<in> (dep_rel w)\<^sup>+" using tD D by simp
          ultimately show ?thesis using D by auto
        qed
        then show ?thesis using sub by auto
      qed
      have p1': "\<forall>d\<in>D. status_of ?e d = Some PENDING \<or> status_of ?e d = Some SKIPPED"
        using p1 st by simp
      have sk': "\<forall>x\<in>insert skip_id skipped. status_of ?e x = Some SKIPPED"
        using sk st by simp
      have edge': "\<forall>d d'. (d, d') \<in> dep_rel w \<longrightarrow>
                     (d' = k \<or> d' \<in> D \<and> status_of ?e d' = Some SKIPPED)
                     \<longrightarrow> status_of ?e d = Some SKIPPED \<or> d \<in> set (to_skip @ ds)"
      proof (intro allI impI)
        fix d d'
        assume r: "(d, d') \<in> dep_rel w"
          and c: "d' = k \<or> d' \<in> D \<and> status_of ?e d' = Some SKIPPED"
        show "status_of ?e d = Some SKIPPED \<or> d \<in> set (to_skip @ ds)"
        proof (cases "d' = skip_id")
          case True
          then show ?thesis using r dset by simp
        next
          case F: False
          then have "d' = k \<or> d' \<in> D \<and> status_of e d' = Some SKIPPED"
            using c st by simp
          then have "status_of e d = Some SKIPPED \<or> d \<in> set (skip_id # to_skip)"
            using edge r by blast
          then show ?thesis using st by auto
        qed
      qed
      have nq: "skip_id \<notin> set (ready_queue e)" using q tD by simp
      then have q': "\<forall>d\<in>D. d \<notin> set (ready_queue ?e)"
        using q by (simp add: remove1_idem)
      from 2(2)[OF False s True ds' g' sub' p1' sk' edge' q']
      obtain e' where r: "skip_loop (to_skip @ ds) (insert skip_id skipped) ?e = Inr e'"
        and a: "\<forall>d\<in>D. status_of e' d = Some SKIPPED"
        and b: "\<forall>x. x \<notin> D \<longrightarrow> get_step e' x = get_step ?e x"
        and c: "\<forall>x\<in>D. get_step e' x = map_option (\<lambda>s. s\<lparr>status := SKIPPED\<rparr>) (get_step ?e x)"
        and d: "ready_queue e' = ready_queue ?e"
        by blast
      have b': "\<forall>x. x \<notin> D \<longrightarrow> get_step e' x = get_step e x"
        using b tD by (auto simp: get_step_set_status)
      have c': "\<forall>x\<in>D. get_step e' x = map_option (\<lambda>s. s\<lparr>status := SKIPPED\<rparr>) (get_step e x)"
        using c by (auto simp: get_step_set_status option.map_comp comp_def)
      have d': "ready_queue e' = ready_queue e"
        using d nq by (simp add: remove1_idem)
      show ?thesis
        using eq r a b' c' d' by simp
    qed
  qed
qed

subsection \<open>Effect of the readiness update\<close>

lemma deps_satisfied_keys:
  "set ds \<subseteq> fst ` set (steps w) \<Longrightarrow>
     deps_satisfied w ds = Inr (\<forall>d\<in>set ds. map_option status (map_of (steps w) d) = Some SUCCESS)"
proof (induction ds)
  case Nil
  then show ?case by simp
next
  case (Cons d ds)
  then obtain s where "map_of (steps w) d = Some s"
    by (cases "map_of (steps w) d") (auto simp: map_of_eq_None_iff)
  then show ?case using Cons by auto
qed

lemma deps_satisfied_success:
  assumes "wf_workflow w" and "same_graph w (workflow e)" and "get_step e k = Some s"
  shows "deps_satisfied (workflow e) (dependencies s) = Inr (deps_success e k)"
proof -
  have d: "deps_map (workflow e) k = dependencies s"
    using assms(3) by (simp add: deps_map_def get_step_def)
  then have "set (dependencies s) \<subseteq> fst ` set (steps w)"
    using wf_deps_keys[OF assms(1), of k] same_graph_deps_map[OF assms(2), of k] by simp
  then have "set (dependencies s) \<subseteq> fst ` set (steps (workflow e))"
    using same_graph_keys[OF assms(2)] by (metis list.set_map)
  from deps_satisfied_keys[OF this] show ?thesis
    using d by (simp add: deps_success_iff status_of_def get_step_def)
qed

lemma evaluate_condition_falsy: "\<not> truthy c \<Longrightarrow> evaluate_condition w c"
  by (auto simp: truthy_def evaluate_condition_def)

lemma update_ready_step_effect:
  assumes "wf_workflow w" and "same_graph w (workflow e)" and "get_step e k = Some s"
  shows "update_ready_step k e =
     Inr (if status s = PENDING \<and> deps_success e k
          then (if evaluate_condition (workflow e) (condition s)
                then (set_status k READY e)\<lparr>ready_queue := ready_queue e @ [k]\<rparr>
                else set_status k SKIPPED e)
          else e)"
  using assms(3) deps_satisfied_success[OF assms] evaluate_condition_falsy[of "condition s" "workflow e"]
  by (auto simp: update_ready_step_def)

lemma set_status_same_success:
  assumes "status_of e k \<noteq> Some SUCCESS" and "st \<noteq> SUCCESS"
  shows "deps_success (set_status k st e) x = deps_success e x"
proof (rule deps_success_cong)
  show "same_graph (workflow e) (workflow (set_status k st e))"
    by (rule same_graph_set_status)
  show "\<And>d. d \<in> set (deps_map (workflow e) x) \<Longrightarrow>
         (status_of (set_status k st e) d = Some SUCCESS) = (status_of e d = Some SUCCESS)"
    using assms by (auto simp: status_of_set_status)
qed

lemma deps_success_queue_update [simp]: "deps_success (e\<lparr>ready_queue := q\<rparr>) x = deps_success e x"
  by (simp add: deps_success_iff)

lemma dep_rel_set_status [simp]: "dep_rel (workflow (set_status k st e)) = dep_rel (workflow e)"
  using same_graph_dep_rel[OF same_graph_set_status] .

lemma mid_inv_ready:
  assumes "mid_inv w e" and "status_of e k = Some PENDING" and "deps_success e k"
  shows "mid_inv w ((set_status k READY e)\<lparr>ready_queue := ready_queue e @ [k]\<rparr>)"
proof -
  let ?e = "(set_status k READY e)\<lparr>ready_queue := ready_queue e @ [k]\<rparr>"
  have st: "status_of ?e x = (if x = k then Some READY else status_of e x)" for x
    using assms(2) by (simp add: status_of_set_status)
  have ds: "deps_success ?e x = deps_success e x" for x
    using set_status_same_success[of e k READY x] assms(2) by simp
  have r: "dep_rel (workflow ?e) = dep_rel (workflow e)" by simp
  have g: "same_graph w (workflow ?e)"
    using assms(1) same_graph_trans[OF _ same_graph_set_status[of e k READY]]
    by (simp add: mid_inv_def)
  have nq: "k \<notin> set (ready_queue e)"
    using assms(1,2) by (simp add: mid_inv_def inv_queue_def)
  have "inv_queue ?e"
    using assms(1) nq st by (auto simp: mid_inv_def inv_queue_def)
  moreover have "inv_deps ?e"
    using assms(1,3) st ds by (auto simp: mid_inv_def inv_deps_def)
  moreover have "inv_skipped ?e"
    unfolding inv_skipped_def
  proof (intro allI impI)
    fix x
    assume "status_of ?e x = Some SKIPPED"
    then have x: "x \<noteq> k" "status_of e x = Some SKIPPED"
      using st[of x] by (auto split: if_splits)
    then consider "deps_success e x"
      | f where "status_of e f = Some FAILED" "(x, f) \<in> (dep_rel (workflow e))\<^sup>+"
      using assms(1) by (auto simp: mid_inv_def inv_skipped_def)
    then show "deps_success ?e x \<or>
          (\<exists>f. status_of ?e f = Some FAILED \<and> (x, f) \<in> (dep_rel (workflow ?e))\<^sup>+)"
    proof cases
      case 1
      then show ?thesis using ds by simp
    next
      case 2
      then have "f \<noteq> k" using assms(2) by auto
      then have "status_of ?e f = Some FAILED" using 2 st by simp
      then show ?thesis using 2 r by auto
    qed
  qed
  moreover have "inv_cascade ?e"
    unfolding inv_cascade_def
  proof (intro allI impI)
    fix f d
    assume "status_of ?e f = Some FAILED" and p: "(d, f) \<in> (dep_rel (workflow ?e))\<^sup>+"
    then have "status_of e f = Some FAILED"
      using st[of f] by (auto split: if_splits)
    then have "status_of e d = Some SKIPPED"
      using assms(1) p r by (auto simp: mid_inv_def inv_cascade_def)
    then show "status_of ?e d = Some SKIPPED"
      using st[of d] assms(2) by auto
  qed
  ultimately show ?thesis
    using assms(1) g by (simp add: mid_inv_def)
qed

lemma mid_inv_skip:
  assumes "mid_inv w e" and "status_of e k = Some PENDING" and "deps_success e k"
  shows "mid_inv w (set_status k SKIPPED e)"
proof -
  let ?e = "set_status k SKIPPED e"
  have st: "status_of ?e x = (if x = k then Some SKIPPED else status_of e x)" for x
    using assms(2) by (simp add: status_of_set_status)
  have ds: "deps_success ?e x = deps_success e x" for x
    using set_status_same_success[of e k SKIPPED x] assms(2) by simp
  have r: "dep_rel (workflow ?e) = dep_rel (workflow e)" by simp
  have g: "same_graph w (workflow ?e)"
    using assms(1) same_graph_trans[OF _ same_graph_set_status[of e k SKIPPED]]
    by (simp add: mid_inv_def)
  have "inv_queue ?e"
    using assms(1,2) st by (auto simp: mid_inv_def inv_queue_def)
  moreover have "inv_deps ?e"
    using assms(1) st ds by (auto simp: mid_inv_def inv_deps_def)
  moreover have "inv_skipped ?e"
    unfolding inv_skipped_def
  proof (intro allI impI)
    fix x
    assume a: "status_of ?e x = Some SKIPPED"
    show "deps_success ?e x \<or>
          (\<exists>f. status_of ?e f = Some FAILED \<and> (x, f) \<in> (dep_rel (workflow ?e))\<^sup>+)"
    proof (cases "x = k")
      case True
      then show ?thesis using assms(3) ds by simp
    next
      case False
      then have "status_of e x = Some SKIPPED" using a st by simp
      then consider "deps_success e x"
        | f where "status_of e f = Some FAILED" "(x, f) \<in> (dep_rel (workflow e))\<^sup>+"
        using assms(1) by (auto simp: mid_inv_def inv_skipped_def)
      then show ?thesis
      proof cases
        case 1
        then show ?thesis using ds by simp
      next
        case 2
        then have "f \<noteq> k" using assms(2) by auto
        then have "status_of ?e f = Some FAILED" using 2 st by simp
        then show ?thesis using 2 r by auto
      qed
    qed
  qed
  moreover have "inv_cascade ?e"
    unfolding inv_cascade_def
  proof (intro allI impI)
    fix f d
    assume "status_of ?e f = Some FAILED" and p: "(d, f) \<in> (dep_rel (workflow ?e))\<^sup>+"
    then have "status_of e f = Some FAILED"
      using st[of f] by (auto split: if_splits)
    then have "status_of e d = Some SKIPPED"
      using assms(1) p r by (auto simp: mid_inv_def inv_cascade_def)
    then show "status_of ?e d = Some SKIPPED"
      using st[of d] by auto
  qed
  ultimately show ?thesis
    using assms(1) g by (simp add: mid_inv_def)
qed

lemma update_ready_step_inv:
  assumes m: "mid_inv w e" and k: "k \<in> fst ` set (steps w)"
    and nr: "\<forall>x. status_of e x \<noteq> Some RUNNING"
  shows "\<exists>e1. update_ready_step k e = Inr e1 \<and> mid_inv w e1 \<and>
          execution_order e1 = execution_order e \<and>
          (\<forall>x. status_of e1 x \<noteq> Some RUNNING) \<and>
          (\<forall>x. deps_success e1 x = deps_success e x) \<and>
          (\<forall>x. x \<noteq> k \<longrightarrow> get_step e1 x = get_step e x) \<and>
          (get_step e1 k = get_step e k \<or>
           (status_of e k = Some PENDING \<and> deps_success e k \<and>
            (\<exists>s. get_step e k = Some s \<and>
                 (get_step e1 k = Some (s\<lparr>status := READY\<rparr>) \<or>
                  get_step e1 k = Some (s\<lparr>status := SKIPPED\<rparr>))))) \<and>
          (status_of e1 k = Some PENDING \<longrightarrow> \<not> deps_success e1 k)"
proof -
  have wf: "wf_workflow w" and g: "same_graph w (workflow e)"
    using m by (simp_all add: mid_inv_def)
  obtain s where s: "get_step e k = Some s"
    using same_graph_get_step_key[OF g, of k] k by auto
  have so: "status_of e k = Some (status s)"
    using s by (simp add: status_of_def)
  note eff = update_ready_step_effect[OF wf g s]
  show ?thesis
  proof (cases "status s = PENDING \<and> deps_success e k")
    case False
    then have "update_ready_step k e = Inr e" using eff by auto
    then show ?thesis using m nr False so by auto
  next
    case True
    then have p: "status_of e k = Some PENDING" and d: "deps_success e k"
      using so by simp_all
    show ?thesis
    proof (cases "evaluate_condition (workflow e) (condition s)")
      case c: True
      let ?e = "(set_status k READY e)\<lparr>ready_queue := ready_queue e @ [k]\<rparr>"
      have u: "update_ready_step k e = Inr ?e" using eff True c by simp
      have st: "status_of ?e x = (if x = k then Some READY else status_of e x)" for x
        using p by (simp add: status_of_set_status)
      have ds: "deps_success ?e x = deps_success e x" for x
        using set_status_same_success[of e k READY x] p by simp
      have gs: "get_step ?e k = Some (s\<lparr>status := READY\<rparr>)"
        using s by (simp add: get_step_set_status)
      have fr: "x \<noteq> k \<Longrightarrow> get_step ?e x = get_step e x" for x
        by (simp add: get_step_set_status)
      show ?thesis
        using u mid_inv_ready[OF m p d] st ds gs fr nr p d s by auto
    next
      case c: False
      let ?e = "set_status k SKIPPED e"
      have u: "update_ready_step k e = Inr ?e" using eff True c by simp
      have st: "status_of ?e x = (if x = k then Some SKIPPED else status_of e x)" for x
        using p by (simp add: status_of_set_status)
      have ds: "deps_success ?e x = deps_success e x" for x
        using set_status_same_success[of e k SKIPPED x] p by simp
      have gs: "get_step ?e k = Some (s\<lparr>status := SKIPPED\<rparr>)"
        using s by (simp add: get_step_set_status)
      have fr: "x \<noteq> k \<Longrightarrow> get_step ?e x = get_step e x" for x
        by (simp add: get_step_set_status)
      show ?thesis
        using u mid_inv_skip[OF m p d] st ds gs fr nr p d s by auto
    qed
  qed
qed

lemma update_ready_loop_inv:
  assumes "mid_inv w e" and "set ks \<subseteq> fst ` set (steps w)"
    and "\<forall>x. status_of e x \<noteq> Some RUNNING"
  shows "\<exists>e'. update_ready_loop ks e = Inr e' \<and> mid_inv w e' \<and>
          execution_order e' = execution_order e \<and>
          (\<forall>x. status_of e' x \<noteq> Some RUNNING) \<and>
          (\<forall>x. deps_success e' x = deps_success e x) \<and>
          (\<forall>x. x \<notin> set ks \<longrightarrow> get_step e' x = get_step e x) \<and>
          (\<forall>x. get_step e' x = get_step e x \<or>
               (status_of e x = Some PENDING \<and> deps_success e x \<and>
                (\<exists>s. get_step e x = Some s \<and>
                     (get_step e' x = Some (s\<lparr>status := READY\<rparr>) \<or>
                      get_step e' x = Some (s\<lparr>status := SKIPPED\<rparr>))))) \<and>
          (\<forall>x\<in>set ks. status_of e' x = Some PENDING \<longrightarrow> \<not> deps_success e' x)"
  using assms
proof (induction ks arbitrary: e)
  case Nil
  then show ?case by simp
next
  case (Cons k ks)
  from update_ready_step_inv[OF Cons.prems(1) _ Cons.prems(3), of k] Cons.prems(2)
  obtain e1 where u1: "update_ready_step k e = Inr e1" and m1: "mid_inv w e1"
    and l1: "execution_order e1 = execution_order e"
    and nr1: "\<forall>x. status_of e1 x \<noteq> Some RUNNING"
    and ds1: "\<forall>x. deps_success e1 x = deps_success e x"
    and fr1: "\<forall>x. x \<noteq> k \<longrightarrow> get_step e1 x = get_step e x"
    and ch1: "get_step e1 k = get_step e k \<or>
           (status_of e k = Some PENDING \<and> deps_success e k \<and>
            (\<exists>s. get_step e k = Some s \<and>
                 (get_step e1 k = Some (s\<lparr>status := READY\<rparr>) \<or>
                  get_step e1 k = Some (s\<lparr>status := SKIPPED\<rparr>))))"
    and p1: "status_of e1 k = Some PENDING \<longrightarrow> \<not> deps_success e1 k"
    by auto
  from Cons.IH[OF m1 _ nr1] Cons.prems(2)
  obtain e' where u2: "update_ready_loop ks e1 = Inr e'" and m2: "mid_inv w e'"
    and l2: "execution_order e' = execution_order e1"
    and nr2: "\<forall>x. status_of e' x \<noteq> Some RUNNING"
    and ds2: "\<forall>x. deps_success e' x = deps_success e1 x"
    and fr2: "\<forall>x. x \<notin> set ks \<longrightarrow> get_step e' x = get_step e1 x"
    and ch2: "\<forall>x. get_step e' x = get_step e1 x \<or>
               (status_of e1 x = Some PENDING \<and> deps_success e1 x \<and>
                (\<exists>s. get_step e1 x = Some s \<and>
                     (get_step e' x = Some (s\<lparr>status := READY\<rparr>) \<or>
                      get_step e' x = Some (s\<lparr>status := SKIPPED\<rparr>))))"
    and p2: "\<forall>x\<in>set ks. status_of e' x = Some PENDING \<longrightarrow> \<not> deps_success e' x"
    by auto
  have u: "update_ready_loop (k # ks) e = Inr e'"
    using u1 u2 by simp
  have ch1': "get_step e1 x = get_step e x \<or>
           (status_of e x = Some PENDING \<and> deps_success e x \<and>
            (\<exists>s. get_step e x = Some s \<and>
                 (get_step e1 x = Some (s\<lparr>status := READY\<rparr>) \<or>
                  get_step e1 x = Some (s\<lparr>status := SKIPPED\<rparr>))))" for x
    using ch1 fr1 by (cases "x = k") auto
  have ch: "get_step e' x = get_step e x \<or>
               (status_of e x = Some PENDING \<and> deps_success e x \<and>
                (\<exists>s. get_step e x = Some s \<and>
                     (get_step e' x = Some (s\<lparr>status := READY\<rparr>) \<or>
                      get_step e' x = Some (s\<lparr>status := SKIPPED\<rparr>))))" for x
  proof (cases "get_step e1 x = get_step e x")
    case True
    then have "status_of e1 x = status_of e x" by (simp add: status_of_def)
    then show ?thesis using ch2[rule_format, of x] True ds1 by auto
  next
    case False
    then obtain s where s: "status_of e x = Some PENDING" "deps_success e x" "get_step e x = Some s"
      "get_step e1 x = Some (s\<lparr>status := READY\<rparr>) \<or> get_step e1 x = Some (s\<lparr>status := SKIPPED\<rparr>)"
      using ch1'[of x] by auto
    then have "status_of e1 x \<noteq> Some PENDING"
      by (auto simp: status_of_def)
    then have "get_step e' x = get_step e1 x" using ch2 by blast
    then show ?thesis using s by auto
  qed
  have pk: "status_of e' k = Some PENDING \<longrightarrow> \<not> deps_success e' k"
  proof
    assume a: "status_of e' k = Some PENDING"
    have "get_step e' k = get_step e1 k"
      using ch2[rule_format, of k] a by (auto simp: status_of_def)
    then have "status_of e1 k = Some PENDING" using a by (simp add: status_of_def)
    then show "\<not> deps_success e' k" using p1 ds2 by simp
  qed
  have fr: "\<forall>x. x \<notin> set (k # ks) \<longrightarrow> get_step e' x = get_step e x"
    using fr1 fr2 by simp
  show ?case
    using u m2 l1 l2 nr2 ds1 ds2 fr ch pk p2 by auto
qed

subsection \<open>The phases of one pass\<close>

lemma mid_inv_dep_rel: "mid_inv w e \<Longrightarrow> dep_rel (workflow e) = dep_rel w"
  by (simp add: mid_inv_def same_graph_dep_rel)

lemma dispatch_inv:
  assumes inv: "engine_inv w e" and n: "get_next_step strat e = Inr (Some k, e1)"
  defines "e3 \<equiv> set_status k RUNNING (e1\<lparr>ready_queue := remove1 k (ready_queue e1)\<rparr>)"
  shows "mid_inv w e3" and "status_of e k = Some READY" and "deps_success e k"
    and "status_of e3 k = Some RUNNING"
    and "\<And>x. x \<noteq> k \<Longrightarrow> get_step e3 x = get_step e x"
    and "get_step e3 k = map_option (\<lambda>s. s\<lparr>status := RUNNING\<rparr>) (get_step e k)"
    and "execution_order e3 = execution_order e"
    and "\<And>x. deps_success e3 x = deps_success e x"
    and "ready_queue e3 = remove1 k (ready_queue e)"
proof -
  have m: "mid_inv w e" and settled: "inv_settled e"
    using inv by (simp_all add: engine_inv_def)
  have q: "inv_queue e" and d: "inv_deps e" and sk: "inv_skipped e" and c: "inv_cascade e"
    using m by (simp_all add: mid_inv_def)
  note gn = get_next_step_Some[OF n]
  have kq: "k \<in> set (ready_queue e)" using gn by simp
  then show r: "status_of e k = Some READY" using q by (simp add: inv_queue_def)
  then show dk: "deps_success e k" using d by (simp add: inv_deps_def)
  have rq: "remove1 k (ready_queue e1) = remove1 k (ready_queue e)"
    using gn(6) q by (simp add: inv_queue_def)
  have w1: "workflow (e1\<lparr>ready_queue := remove1 k (ready_queue e1)\<rparr>) = workflow e"
    using gn(1) by simp
  have gs1: "get_step (e1\<lparr>ready_queue := remove1 k (ready_queue e1)\<rparr>) x = get_step e x" for x
    using gn(1) by (simp add: get_step_def)
  have so1: "status_of (e1\<lparr>ready_queue := remove1 k (ready_queue e1)\<rparr>) x = status_of e x" for x
    using gs1 by (simp add: status_of_def)
  have st: "status_of e3 x = (if x = k then Some RUNNING else status_of e x)" for x
    using r so1 by (simp add: e3_def status_of_set_status)
  show "status_of e3 k = Some RUNNING" using st by simp
  show "\<And>x. x \<noteq> k \<Longrightarrow> get_step e3 x = get_step e x"
    using gs1 by (simp add: e3_def get_step_set_status)
  show "get_step e3 k = map_option (\<lambda>s. s\<lparr>status := RUNNING\<rparr>) (get_step e k)"
    using gs1 by (simp add: e3_def get_step_set_status)
  show "execution_order e3 = execution_order e"
    using gn(2) by (simp add: e3_def)
  show rq3: "ready_queue e3 = remove1 k (ready_queue e)"
    using rq by (simp add: e3_def)
  have w3: "same_graph (workflow e) (workflow e3)"
    using same_graph_set_status[of "e1\<lparr>ready_queue := remove1 k (ready_queue e1)\<rparr>" k RUNNING] w1
    by (simp add: e3_def)
  show ds: "deps_success e3 x = deps_success e x" for x
  proof (rule deps_success_cong[OF w3])
    show "\<And>d. d \<in> set (deps_map (workflow e) x) \<Longrightarrow>
           (status_of e3 d = Some SUCCESS) = (status_of e d = Some SUCCESS)"
      using st r by auto
  qed
  have rel: "dep_rel (workflow e3) = dep_rel (workflow e)"
    using same_graph_dep_rel[OF w3] .
  have "same_graph w (workflow e3)"
    using m w3 same_graph_trans by (auto simp: mid_inv_def)
  moreover have "inv_queue e3"
    using q rq3 st by (auto simp: inv_queue_def)
  moreover have "inv_deps e3"
    using d st ds dk by (auto simp: inv_deps_def)
  moreover have "inv_skipped e3"
    unfolding inv_skipped_def
  proof (intro allI impI)
    fix x
    assume "status_of e3 x = Some SKIPPED"
    then have x: "status_of e x = Some SKIPPED"
      using st[of x] by (auto split: if_splits)
    then consider "deps_success e x"
      | f where "status_of e f = Some FAILED" "(x, f) \<in> (dep_rel (workflow e))\<^sup>+"
      using sk by (auto simp: inv_skipped_def)
    then show "deps_success e3 x \<or>
          (\<exists>f. status_of e3 f = Some FAILED \<and> (x, f) \<in> (dep_rel (workflow e3))\<^sup>+)"
    proof cases
      case 1
      then show ?thesis using ds by simp
    next
      case 2
      then have "f \<noteq> k" using r by auto
      then have "status_of e3 f = Some FAILED" using 2 st by simp
      then show ?thesis using 2 rel by auto
    qed
  qed
  moreover have "inv_cascade e3"
    unfolding inv_cascade_def
  proof (intro allI impI)
    fix f d'
    assume "status_of e3 f = Some FAILED" and p: "(d', f) \<in> (dep_rel (workflow e3))\<^sup>+"
    then have "status_of e f = Some FAILED"
      using st[of f] by (auto split: if_splits)
    then have "status_of e d' = Some SKIPPED"
      using c p rel by (auto simp: inv_cascade_def)
    then show "status_of e3 d' = Some SKIPPED"
      using st[of d'] r by auto
  qed
  ultimately show "mid_inv w e3"
    using m by (simp add: mid_inv_def)
qed

lemma execute_inv:
  assumes m: "mid_inv w e3" and r: "status_of e3 k = Some RUNNING"
    and nr: "\<forall>x. x \<noteq> k \<longrightarrow> status_of e3 x \<noteq> Some RUNNING"
    and x: "execute_step run k e3 = Inr (b, e4)"
  shows "pre_cascade w k e4"
    and "status_of e4 k \<noteq> Some FAILED \<Longrightarrow> mid_inv w e4"
    and "\<And>y. deps_success e3 y \<Longrightarrow> deps_success e4 y"
    and "\<And>y. status_of e4 k \<noteq> Some SUCCESS \<Longrightarrow> deps_success e4 y = deps_success e3 y"
proof -
  have wf: "wf_workflow w" and g: "same_graph w (workflow e3)"
    and q: "inv_queue e3" and d: "inv_deps e3" and sk: "inv_skipped e3" and c: "inv_cascade e3"
    using m by (simp_all add: mid_inv_def)
  have rel3: "dep_rel (workflow e3) = dep_rel w" using m by (rule mid_inv_dep_rel)
  note st = execute_step_status[OF x]
  from x obtain s where g34: "same_graph (workflow e3) (workflow e4)"
    and rq: "ready_queue e4 = ready_queue e3"
    by (rule execute_step_effect) blast
  have g4: "same_graph w (workflow e4)" using g g34 by (rule same_graph_trans)
  have rel4: "dep_rel (workflow e4) = dep_rel w" using g4 by (rule same_graph_dep_rel)
  have dm: "deps_map (workflow e4) y = deps_map (workflow e3) y" for y
    using g34 by (rule same_graph_deps_map)
  show mono: "deps_success e4 y" if "deps_success e3 y" for y
    unfolding deps_success_iff dm
  proof
    fix d'
    assume "d' \<in> set (deps_map (workflow e3) y)"
    then have "status_of e3 d' = Some SUCCESS" using that by (simp add: deps_success_iff)
    moreover from this have "d' \<noteq> k" using r by auto
    ultimately show "status_of e4 d' = Some SUCCESS" using st(3) by simp
  qed
  show same: "deps_success e4 y = deps_success e3 y" if "status_of e4 k \<noteq> Some SUCCESS" for y
  proof (rule deps_success_cong[OF g34])
    fix d'
    show "(status_of e4 d' = Some SUCCESS) = (status_of e3 d' = Some SUCCESS)"
      using st(3)[of d'] r that by (cases "d' = k") auto
  qed
  have iq: "inv_queue e4"
    unfolding inv_queue_def rq
  proof (intro conjI allI)
    show "distinct (ready_queue e3)" using q by (simp add: inv_queue_def)
    fix y
    show "(y \<in> set (ready_queue e3)) = (status_of e4 y = Some READY)"
    proof (cases "y = k")
      case True
      then show ?thesis using q r st(1) by (auto simp: inv_queue_def)
    next
      case False
      then show ?thesis using q st(3) by (simp add: inv_queue_def)
    qed
  qed
  have idp: "inv_deps e4"
    unfolding inv_deps_def
  proof (intro allI impI)
    fix y
    assume a: "status_of e4 y \<in> {Some READY, Some RUNNING, Some SUCCESS, Some FAILED}"
    have "deps_success e3 y"
    proof (cases "y = k")
      case True
      then show ?thesis using d r by (simp add: inv_deps_def)
    next
      case False
      then have "status_of e3 y \<in> {Some READY, Some RUNNING, Some SUCCESS, Some FAILED}"
        using a st(3) by simp
      then show ?thesis using d unfolding inv_deps_def by blast
    qed
    then show "deps_success e4 y" by (rule mono)
  qed
  have isk: "\<forall>y. status_of e4 y = Some SKIPPED \<longrightarrow>
           deps_success e4 y \<or>
           (\<exists>f. f \<noteq> k \<and> status_of e4 f = Some FAILED \<and> (y, f) \<in> (dep_rel w)\<^sup>+)"
  proof (intro allI impI)
    fix y
    assume a: "status_of e4 y = Some SKIPPED"
    then have "y \<noteq> k" using st(1) by auto
    then have "status_of e3 y = Some SKIPPED" using a st(3) by simp
    then consider "deps_success e3 y"
      | f where "status_of e3 f = Some FAILED" "(y, f) \<in> (dep_rel w)\<^sup>+"
      using sk rel3 by (auto simp: inv_skipped_def)
    then show "deps_success e4 y \<or>
           (\<exists>f. f \<noteq> k \<and> status_of e4 f = Some FAILED \<and> (y, f) \<in> (dep_rel w)\<^sup>+)"
    proof cases
      case 1
      then show ?thesis using mono by simp
    next
      case 2
      then have "f \<noteq> k" using r by auto
      then show ?thesis using 2 st(3) by auto
    qed
  qed
  have ic: "\<forall>f d'. f \<noteq> k \<longrightarrow> status_of e4 f = Some FAILED \<longrightarrow> (d', f) \<in> (dep_rel w)\<^sup>+
            \<longrightarrow> status_of e4 d' = Some SKIPPED"
  proof (intro allI impI)
    fix f d'
    assume "f \<noteq> k" "status_of e4 f = Some FAILED" "(d', f) \<in> (dep_rel w)\<^sup>+"
    then have "status_of e3 d' = Some SKIPPED"
      using c rel3 st(3) by (simp add: inv_cascade_def)
    moreover from this have "d' \<noteq> k" using r by auto
    ultimately show "status_of e4 d' = Some SKIPPED" using st(3) by simp
  qed
  have nrun: "\<forall>y. status_of e4 y \<noteq> Some RUNNING"
  proof
    fix y
    show "status_of e4 y \<noteq> Some RUNNING"
      using st(1) st(3)[of y] nr by (cases "y = k") auto
  qed
  show "pre_cascade w k e4"
    using wf g4 iq idp isk ic nrun by (simp add: pre_cascade_def)
  show "mid_inv w e4" if nf: "status_of e4 k \<noteq> Some FAILED"
  proof -
    have "inv_skipped e4"
      unfolding inv_skipped_def rel4 using isk by blast
    moreover have "inv_cascade e4"
      unfolding inv_cascade_def rel4
    proof (intro allI impI)
      fix f d'
      assume f: "status_of e4 f = Some FAILED" and p: "(d', f) \<in> (dep_rel w)\<^sup>+"
      then have "f \<noteq> k" using nf by auto
      then show "status_of e4 d' = Some SKIPPED" using ic f p by simp
    qed
    ultimately show ?thesis
      using wf g4 iq idp by (simp add: mid_inv_def)
  qed
qed

lemma cascade_inv:
  assumes pc: "pre_cascade w k e4" and f: "status_of e4 k = Some FAILED"
  shows "\<exists>e5. skip_dependents k e4 = Inr e5 \<and> mid_inv w e5 \<and>
          (\<forall>x. status_of e5 x \<noteq> Some RUNNING) \<and>
          execution_order e5 = execution_order e4 \<and> ready_queue e5 = ready_queue e4 \<and>
          (\<forall>x. (x, k) \<in> (dep_rel w)\<^sup>+ \<longrightarrow>
               get_step e5 x = map_option (\<lambda>s. s\<lparr>status := SKIPPED\<rparr>) (get_step e4 x)) \<and>
          (\<forall>x. (x, k) \<notin> (dep_rel w)\<^sup>+ \<longrightarrow> get_step e5 x = get_step e4 x) \<and>
          (\<forall>x. deps_success e5 x = deps_success e4 x)"
proof -
  define D where "D = {d. (d, k) \<in> (dep_rel w)\<^sup>+}"
  have wf: "wf_workflow w" and g: "same_graph w (workflow e4)"
    and q: "inv_queue e4" and d: "inv_deps e4"
    and sk: "\<forall>x. status_of e4 x = Some SKIPPED \<longrightarrow>
           deps_success e4 x \<or>
           (\<exists>f. f \<noteq> k \<and> status_of e4 f = Some FAILED \<and> (x, f) \<in> (dep_rel w)\<^sup>+)"
    and c: "\<forall>f d. f \<noteq> k \<longrightarrow> status_of e4 f = Some FAILED \<longrightarrow> (d, f) \<in> (dep_rel w)\<^sup>+
            \<longrightarrow> status_of e4 d = Some SKIPPED"
    and nr: "\<forall>x. status_of e4 x \<noteq> Some RUNNING"
    using pc by (simp_all add: pre_cascade_def)
  have key: "k \<in> fst ` set (steps w)"
    using status_of_Some_key[OF g f] .
  obtain ds where ds: "map_of (inverse_dependencies w) k = Some ds"
    and dset: "set ds = {d. (d, k) \<in> dep_rel w}"
    using wf_inverse[OF wf key] by blast
  have ds': "map_of (inverse_dependencies (workflow e4)) k = Some ds"
    using ds same_graph_inverse[OF g] by simp
  have blocked: "status_of e4 y = Some PENDING \<or> status_of e4 y = Some SKIPPED"
    if e: "(y, y') \<in> dep_rel w" and ns: "status_of e4 y' \<noteq> Some SUCCESS" for y y'
  proof -
    have "y' \<in> set (deps_map (workflow e4) y)"
      using e same_graph_deps_map[OF g, of y] by (simp add: dep_rel_def)
    then have "\<not> deps_success e4 y"
      using ns by (auto simp: deps_success_iff)
    then have n: "status_of e4 y \<notin> {Some READY, Some RUNNING, Some SUCCESS, Some FAILED}"
      using d unfolding inv_deps_def by blast
    have "y \<in> fst ` set (steps w)" using e by (rule dep_rel_key)
    then obtain s where "get_step e4 y = Some s"
      using same_graph_get_step_key[OF g, of y] by auto
    then have "status_of e4 y = Some (status s)" by (simp add: status_of_def)
    then show ?thesis using n by (cases "status s") auto
  qed
  have p1: "\<forall>d\<in>D. status_of e4 d = Some PENDING \<or> status_of e4 d = Some SKIPPED"
  proof
    fix y
    assume "y \<in> D"
    then have "(y, k) \<in> (dep_rel w)\<^sup>+" by (simp add: D_def)
    then show "status_of e4 y = Some PENDING \<or> status_of e4 y = Some SKIPPED"
    proof (induction rule: converse_trancl_induct)
      case (base y)
      then show ?case using blocked[of y k] f by simp
    next
      case (step y z)
      then show ?case using blocked[of y z] by auto
    qed
  qed
  have sub: "set ds \<subseteq> D"
    using dset by (auto simp: D_def)
  have edge: "\<forall>y y'. (y, y') \<in> dep_rel w \<longrightarrow>
                (y' = k \<or> y' \<in> D \<and> status_of e4 y' = Some SKIPPED)
                \<longrightarrow> status_of e4 y = Some SKIPPED \<or> y \<in> set ds"
  proof (intro allI impI)
    fix y y'
    assume e: "(y, y') \<in> dep_rel w"
      and h: "y' = k \<or> y' \<in> D \<and> status_of e4 y' = Some SKIPPED"
    show "status_of e4 y = Some SKIPPED \<or> y \<in> set ds"
    proof (cases "y' = k")
      case True
      then show ?thesis using e dset by simp
    next
      case False
      then have y': "(y', k) \<in> (dep_rel w)\<^sup>+" "status_of e4 y' = Some SKIPPED"
        using h by (simp_all add: D_def)
      obtain z where z: "(y', z) \<in> dep_rel w" "z = k \<or> (z, k) \<in> (dep_rel w)\<^sup>+"
        using y'(1) by (meson tranclD rtranclD)
      have "status_of e4 z \<noteq> Some SUCCESS"
        using z(2) f p1 by (auto simp: D_def)
      then have "z \<in> set (deps_map (workflow e4) y') \<and> status_of e4 z \<noteq> Some SUCCESS"
        using z(1) same_graph_deps_map[OF g, of y'] by (simp add: dep_rel_def)
      then have "\<not> deps_success e4 y'"
        by (auto simp: deps_success_iff)
      then obtain f' where f': "f' \<noteq> k" "status_of e4 f' = Some FAILED" "(y', f') \<in> (dep_rel w)\<^sup>+"
        using sk y'(2) by blast
      have "(y, f') \<in> (dep_rel w)\<^sup>+" using e f'(3) by auto
      then show ?thesis using c f'(1,2) by blast
    qed
  qed
  have nq: "\<forall>d\<in>D. d \<notin> set (ready_queue e4)"
    using p1 q by (auto simp: inv_queue_def)
  have emp: "\<forall>x\<in>{}. status_of e4 x = Some SKIPPED" by simp
  from skip_loop_cascade[OF wf D_def g sub p1 emp edge nq]
  obtain e5 where r: "skip_loop ds {} e4 = Inr e5"
    and a: "\<forall>d\<in>D. status_of e5 d = Some SKIPPED"
    and b: "\<forall>x. x \<notin> D \<longrightarrow> get_step e5 x = get_step e4 x"
    and c5: "\<forall>x\<in>D. get_step e5 x = map_option (\<lambda>s. s\<lparr>status := SKIPPED\<rparr>) (get_step e4 x)"
    and q5: "ready_queue e5 = ready_queue e4"
    by blast
  have sd: "skip_dependents k e4 = Inr e5"
    using ds' r by (simp add: skip_dependents_def)
  note fr = skip_loop_frame[OF r]
  have g45: "same_graph (workflow e4) (workflow e5)" using fr by simp
  have g5: "same_graph w (workflow e5)" using g g45 by (rule same_graph_trans)
  have rel5: "dep_rel (workflow e5) = dep_rel w" using g5 by (rule same_graph_dep_rel)
  have st: "status_of e5 x = (if x \<in> D then Some SKIPPED else status_of e4 x)" for x
    using a b by (simp add: status_of_def)
  have kD: "k \<notin> D" using p1 f by auto
  have ds5: "deps_success e5 x = deps_success e4 x" for x
  proof (rule deps_success_cong[OF g45])
    fix d'
    show "(status_of e5 d' = Some SUCCESS) = (status_of e4 d' = Some SUCCESS)"
      using st[of d'] p1 by auto
  qed
  have "inv_queue e5"
    unfolding inv_queue_def q5
  proof (intro conjI allI)
    show "distinct (ready_queue e4)" using q by (simp add: inv_queue_def)
    fix y
    show "(y \<in> set (ready_queue e4)) = (status_of e5 y = Some READY)"
      using q st[of y] p1 by (auto simp: inv_queue_def)
  qed
  moreover have "inv_deps e5"
    unfolding inv_deps_def
  proof (intro allI impI)
    fix y
    assume "status_of e5 y \<in> {Some READY, Some RUNNING, Some SUCCESS, Some FAILED}"
    then have "status_of e4 y \<in> {Some READY, Some RUNNING, Some SUCCESS, Some FAILED}"
      using st[of y] by (auto split: if_splits)
    then have "deps_success e4 y" using d unfolding inv_deps_def by blast
    then show "deps_success e5 y" using ds5 by simp
  qed
  moreover have "inv_skipped e5"
    unfolding inv_skipped_def rel5
  proof (intro allI impI)
    fix y
    assume s5: "status_of e5 y = Some SKIPPED"
    show "deps_success e5 y \<or> (\<exists>f. status_of e5 f = Some FAILED \<and> (y, f) \<in> (dep_rel w)\<^sup>+)"
    proof (cases "y \<in> D")
      case True
      then have "(y, k) \<in> (dep_rel w)\<^sup>+" by (simp add: D_def)
      moreover have "status_of e5 k = Some FAILED" using st kD f by simp
      ultimately show ?thesis by blast
    next
      case False
      then have "status_of e4 y = Some SKIPPED" using s5 st by simp
      then consider "deps_success e4 y"
        | f' where "status_of e4 f' = Some FAILED" "(y, f') \<in> (dep_rel w)\<^sup>+"
        using sk by blast
      then show ?thesis
      proof cases
        case 1
        then show ?thesis using ds5 by simp
      next
        case 2
        then have "f' \<notin> D" using p1 by auto
        then have "status_of e5 f' = Some FAILED" using 2 st by simp
        then show ?thesis using 2 by blast
      qed
    qed
  qed
  moreover have "inv_cascade e5"
    unfolding inv_cascade_def rel5
  proof (intro allI impI)
    fix f' d'
    assume f5: "status_of e5 f' = Some FAILED" and p: "(d', f') \<in> (dep_rel w)\<^sup>+"
    then have f4: "status_of e4 f' = Some FAILED"
      using st[of f'] by (auto split: if_splits)
    show "status_of e5 d' = Some SKIPPED"
    proof (cases "f' = k")
      case True
      then have "d' \<in> D" using p by (simp add: D_def)
      then show ?thesis using a by simp
    next
      case False
      then have "status_of e4 d' = Some SKIPPED" using c f4 p by blast
      then show ?thesis using st[of d'] by simp
    qed
  qed
  ultimately have m5: "mid_inv w e5"
    using wf g5 by (simp add: mid_inv_def)
  have nr5: "\<forall>x. status_of e5 x \<noteq> Some RUNNING"
    using nr st by simp
  have l5: "execution_order e5 = execution_order e4" using fr by simp
  show ?thesis
    using sd m5 nr5 l5 q5 b c5 ds5 by (auto simp: D_def)
qed

lemma update_ready_queue_inv:
  assumes m: "mid_inv w e" and nr: "\<forall>x. status_of e x \<noteq> Some RUNNING"
  shows "\<exists>e'. update_ready_queue e = Inr e' \<and> engine_inv w e' \<and>
          execution_order e' = execution_order e \<and>
          (\<forall>x. deps_success e' x = deps_success e x) \<and>
          (\<forall>x. get_step e' x = get_step e x \<or>
               (status_of e x = Some PENDING \<and> deps_success e x \<and>
                (\<exists>s. get_step e x = Some s \<and>
                     (get_step e' x = Some (s\<lparr>status := READY\<rparr>) \<or>
                      get_step e' x = Some (s\<lparr>status := SKIPPED\<rparr>)))))"
proof -
  have g: "same_graph w (workflow e)" using m by (simp add: mid_inv_def)
  have ks: "set (map fst (steps (workflow e))) \<subseteq> fst ` set (steps w)"
    using same_graph_keys[OF g] by (metis list.set_map subset_refl)
  from update_ready_loop_inv[OF m ks nr]
  obtain e' where u: "update_ready_loop (map fst (steps (workflow e))) e = Inr e'"
    and m': "mid_inv w e'" and l: "execution_order e' = execution_order e"
    and nr': "\<forall>x. status_of e' x \<noteq> Some RUNNING"
    and ds: "\<forall>x. deps_success e' x = deps_success e x"
    and ch: "\<forall>x. get_step e' x = get_step e x \<or>
               (status_of e x = Some PENDING \<and> deps_success e x \<and>
                (\<exists>s. get_step e x = Some s \<and>
                     (get_step e' x = Some (s\<lparr>status := READY\<rparr>) \<or>
                      get_step e' x = Some (s\<lparr>status := SKIPPED\<rparr>))))"
    and p: "\<forall>x\<in>set (map fst (steps (workflow e))). status_of e' x = Some PENDING \<longrightarrow> \<not> deps_success e' x"
    by blast
  have g': "same_graph w (workflow e')" using m' by (simp add: mid_inv_def)
  have "inv_settled e'"
    unfolding inv_settled_def
  proof (intro allI conjI impI)
    fix k
    show "status_of e' k \<noteq> Some RUNNING" using nr' by simp
    assume a: "status_of e' k = Some PENDING"
    then have "k \<in> fst ` set (steps w)" using status_of_Some_key[OF g'] by simp
    then have "k \<in> set (map fst (steps (workflow e)))"
      using same_graph_keys[OF g] by (metis list.set_map)
    then show "\<not> deps_success e' k" using p a by blast
  qed
  then have inv: "engine_inv w e'" using m' by (simp add: engine_inv_def)
  show ?thesis
    using u inv l ds ch by (auto simp: update_ready_queue_def)
qed

subsection \<open>One pass keeps the invariant\<close>

lemma sequential_body_phases:
  assumes inv: "engine_inv w e" and body: "sequential_body run strat e = Inr (True, e6)"
  obtains k e1 e3 b e4 e5 where
    "get_next_step strat e = Inr (Some k, e1)"
    "e3 = set_status k RUNNING (e1\<lparr>ready_queue := remove1 k (ready_queue e1)\<rparr>)"
    "execute_step run k e3 = Inr (b, e4)"
    "pre_cascade w k e4"
    "status_of e4 k = Some FAILED \<Longrightarrow> skip_dependents k e4 = Inr e5"
    "status_of e4 k \<noteq> Some FAILED \<Longrightarrow> e5 = e4"
    "mid_inv w e5" "\<forall>x. status_of e5 x \<noteq> Some RUNNING"
    "update_ready_queue e5 = Inr e6"
    "engine_inv w e6"
proof -
  from body obtain k e1 b e4 e5 where
    n: "get_next_step strat e = Inr (Some k, e1)" and
    x: "execute_step run k (set_status k RUNNING (e1\<lparr>ready_queue := remove1 k (ready_queue e1)\<rparr>))
       = Inr (b, e4)" and
    s: "(if \<not> b \<and> status_of e4 k = Some FAILED then skip_dependents k e4 else Inr e4) = Inr e5" and
    u: "update_ready_queue e5 = Inr e6"
    by (rule sequential_body_continue)
  define e3 where "e3 = set_status k RUNNING (e1\<lparr>ready_queue := remove1 k (ready_queue e1)\<rparr>)"
  note d = dispatch_inv[OF inv n, folded e3_def]
  have settled: "inv_settled e" using inv by (simp add: engine_inv_def)
  have nr3: "\<forall>y. y \<noteq> k \<longrightarrow> status_of e3 y \<noteq> Some RUNNING"
    using d(5) settled by (simp add: status_of_def inv_settled_def)
  have x3: "execute_step run k e3 = Inr (b, e4)" using x by (simp add: e3_def)
  note ex = execute_inv[OF d(1) d(4) nr3 x3]
  note st = execute_step_status[OF x3]
  have pc: "pre_cascade w k e4" using ex(1) .
  have nr4: "\<forall>y. status_of e4 y \<noteq> Some RUNNING" using pc by (simp add: pre_cascade_def)
  have f: "skip_dependents k e4 = Inr e5" if "status_of e4 k = Some FAILED"
    using s that st(2) by simp
  have nf: "e5 = e4" if "status_of e4 k \<noteq> Some FAILED"
    using s that by simp
  have m5: "mid_inv w e5 \<and> (\<forall>x. status_of e5 x \<noteq> Some RUNNING)"
  proof (cases "status_of e4 k = Some FAILED")
    case True
    then show ?thesis using cascade_inv[OF pc True] f by auto
  next
    case False
    then show ?thesis using ex(2) nf nr4 by simp
  qed
  then have "engine_inv w e6"
    using update_ready_queue_inv[of w e5] u by auto
  then show ?thesis
    using that[OF n e3_def x3 pc f nf _ _ u] m5 by blast
qed

lemma sequential_body_inv:
  "engine_inv w e \<Longrightarrow> sequential_body run strat e = Inr (True, e') \<Longrightarrow> engine_inv w e'"
  by (erule sequential_body_phases) auto

subsection \<open>The first readiness update\<close>

lemma status_of_new_engine:
  "fresh w \<Longrightarrow> status_of (new_engine w) k = Some st \<Longrightarrow> st = PENDING"
  by (auto simp: fresh_def status_of_def get_step_def new_engine_def dest!: map_of_SomeD)

lemma mid_inv_new_engine:
  assumes "wf_workflow w" and "fresh w"
  shows "mid_inv w (new_engine w)" and "\<forall>x. status_of (new_engine w) x \<noteq> Some RUNNING"
proof -
  have p: "status_of (new_engine w) k = Some st \<Longrightarrow> st = PENDING" for k st
    using assms(2) by (rule status_of_new_engine)
  show "\<forall>x. status_of (new_engine w) x \<noteq> Some RUNNING"
    using p by fastforce
  have "inv_queue (new_engine w)"
    using p by (fastforce simp: inv_queue_def new_engine_def)
  moreover have "inv_deps (new_engine w)"
    using p by (fastforce simp: inv_deps_def)
  moreover have "inv_skipped (new_engine w)"
    using p by (fastforce simp: inv_skipped_def)
  moreover have "inv_cascade (new_engine w)"
    using p by (fastforce simp: inv_cascade_def)
  moreover have "same_graph w (workflow (new_engine w))"
    by (simp add: new_engine_def)
  ultimately show "mid_inv w (new_engine w)"
    using assms(1) by (simp add: mid_inv_def)
qed

lemma execute_inv_final:
  assumes "wf_workflow w" and "fresh w" and "execute run strat w = Some (Inr e')"
  shows "engine_inv w e'" and "ready_queue e' = []"
proof -
  from update_ready_queue_inv[OF mid_inv_new_engine[OF assms(1,2)]]
  obtain e0 where u: "update_ready_queue (new_engine w) = Inr e0" and i: "engine_inv w e0"
    by blast
  then have "execute_sequential run strat e0 = Some (Inr e')"
    using assms(3) by (simp add: execute_def)
  from execute_sequential_invariant[where I = "engine_inv w", OF this i]
  show "engine_inv w e'" and "ready_queue e' = []"
    using sequential_body_inv by blast+
qed

subsection \<open>A run raises nothing\<close>

lemma level_keys_total:
  "\<forall>k\<in>set ks. map_of lv k \<noteq> None \<Longrightarrow> \<exists>kls. level_keys lv ks = Inr kls"
  by (induction ks) auto

lemma get_next_step_total:
  assumes "ready_queue e \<noteq> []"
    and "case strat of None \<Rightarrow> True
         | Some s \<Rightarrow> \<forall>k\<in>set (ready_queue e). map_of (strategy_levels s) k \<noteq> None"
  shows "\<exists>k e1. get_next_step strat e = Inr (Some k, e1)"
proof (cases strat)
  case None
  then show ?thesis using assms(1) by (auto simp: get_next_step_def split: list.splits)
next
  case (Some s)
  then obtain kls where k: "level_keys (strategy_levels s) (ready_queue e) = Inr kls"
    using assms(2) level_keys_total by fastforce
  then have "kls \<noteq> []" using level_keys_fst[OF k] assms(1) by auto
  then obtain p ps where "kls = p # ps" by (cases kls) auto
  then show ?thesis
    using Some k assms(1)
    by (cases s) (auto simp: get_next_step_def strategy_levels_def)
qed

lemma execute_step_total:
  assumes "get_step e k = Some s"
    and "case failure_strategy s of None \<Rightarrow> True
         | Some fs \<Rightarrow> startswith ''retry:'' fs \<longrightarrow> py_int (split_colon_1 fs) \<noteq> None"
    and "runner_ok run"
  shows "\<exists>b e'. execute_step run k e = Inr (b, e')"
  using assms by (auto simp: execute_step_def Let_def runner_ok_def split: option.splits)

lemma retry_ok_step:
  assumes "retry_ok w" and "same_graph w (workflow e)" and "get_step e k = Some s"
  shows "case failure_strategy s of None \<Rightarrow> True
         | Some fs \<Rightarrow> startswith ''retry:'' fs \<longrightarrow> py_int (split_colon_1 fs) \<noteq> None"
proof -
  obtain s0 where s0: "map_of (steps w) k = Some s0" and st: "static s0 = static s"
    using same_graph_step[OF assms(2), of k s] assms(3) by (auto simp: get_step_def)
  have "(k, s0) \<in> set (steps w)" using s0 by (rule map_of_SomeD)
  then have "case failure_strategy s0 of None \<Rightarrow> True
         | Some fs \<Rightarrow> startswith ''retry:'' fs \<longrightarrow> py_int (split_colon_1 fs) \<noteq> None"
    using assms(1) by (auto simp: retry_ok_def list_all_iff)
  then show ?thesis using static_fields(3)[OF st] by simp
qed

lemma sequential_body_total:
  assumes inv: "engine_inv w e" and ne: "ready_queue e \<noteq> []"
    and so: "strategy_ok strat w" and ro: "retry_ok w" and ru: "runner_ok run"
  shows "\<exists>e'. sequential_body run strat e = Inr (True, e')"
proof -
  have m: "mid_inv w e" and settled: "inv_settled e"
    using inv by (simp_all add: engine_inv_def)
  have g: "same_graph w (workflow e)" and q: "inv_queue e"
    using m by (simp_all add: mid_inv_def)
  have "case strat of None \<Rightarrow> True
         | Some s \<Rightarrow> \<forall>k\<in>set (ready_queue e). map_of (strategy_levels s) k \<noteq> None"
  proof (cases strat)
    case None
    then show ?thesis by simp
  next
    case (Some s)
    have "map_of (strategy_levels s) k \<noteq> None" if "k \<in> set (ready_queue e)" for k
    proof -
      have "status_of e k = Some READY" using q that by (simp add: inv_queue_def)
      then have "k \<in> fst ` set (steps w)" using status_of_Some_key[OF g] by simp
      then show ?thesis using so Some by (auto simp: strategy_ok_def list_all_iff)
    qed
    then show ?thesis using Some by simp
  qed
  from get_next_step_total[OF ne this]
  obtain k e1 where n: "get_next_step strat e = Inr (Some k, e1)" by blast
  define e3 where "e3 = set_status k RUNNING (e1\<lparr>ready_queue := remove1 k (ready_queue e1)\<rparr>)"
  note d = dispatch_inv[OF inv n, folded e3_def]
  have g3: "same_graph w (workflow e3)" using d(1) by (simp add: mid_inv_def)
  obtain s where s: "get_step e3 k = Some s"
    using d(4) by (auto simp: status_of_def)
  from execute_step_total[OF s retry_ok_step[OF ro g3 s] ru]
  obtain b e4 where x: "execute_step run k e3 = Inr (b, e4)" by blast
  have nr3: "\<forall>y. y \<noteq> k \<longrightarrow> status_of e3 y \<noteq> Some RUNNING"
    using d(5) settled by (simp add: status_of_def inv_settled_def)
  note ex = execute_inv[OF d(1) d(4) nr3 x]
  note st = execute_step_status[OF x]
  have nr4: "\<forall>y. status_of e4 y \<noteq> Some RUNNING" using ex(1) by (simp add: pre_cascade_def)
  obtain e5 where s5: "(if \<not> b \<and> status_of e4 k = Some FAILED then skip_dependents k e4 else Inr e4) = Inr e5"
    and m5: "mid_inv w e5" and nr5: "\<forall>x. status_of e5 x \<noteq> Some RUNNING"
  proof (cases "status_of e4 k = Some FAILED")
    case True
    then show ?thesis using cascade_inv[OF ex(1) True] st(2) that by auto
  next
    case False
    then show ?thesis using ex(2) nr4 that by auto
  qed
  obtain e6 where u: "update_ready_queue e5 = Inr e6"
    using update_ready_queue_inv[OF m5 nr5] by blast
  have "sequential_body run strat e = Inr (True, e6)"
    using n x s5 u by (simp add: sequential_body_def e3_def status_of_def)
  then show ?thesis by blast
qed

lemma execute_sequential_total:
  assumes "strategy_ok strat w" and "retry_ok w" and "runner_ok run"
  shows "engine_inv w e \<Longrightarrow> \<exists>e'. execute_sequential run strat e = Some (Inr e')"
proof (induction "potential e" arbitrary: e rule: less_induct)
  case less
  show ?case
  proof (cases "ready_queue e = []")
    case True
    then show ?thesis by (subst execute_sequential.simps) simp
  next
    case False
    from sequential_body_total[OF less.prems False assms]
    obtain e1 where b: "sequential_body run strat e = Inr (True, e1)" by blast
    have "potential e1 < potential e" using b by (rule potential_sequential_body)
    moreover have "engine_inv w e1" using less.prems b by (rule sequential_body_inv)
    ultimately obtain e' where "execute_sequential run strat e1 = Some (Inr e')"
      using less.hyps by blast
    then show ?thesis
      using False b by (subst execute_sequential.simps) simp
  qed
qed

lemma execute_total:
  assumes "wf_workflow w" and "fresh w" and "strategy_ok strat w" and "retry_ok w"
    and "runner_ok run"
  shows "\<exists>e'. execute run strat w = Some (Inr e')"
proof -
  from update_ready_queue_inv[OF mid_inv_new_engine[OF assms(1,2)]]
  obtain e0 where u: "update_ready_queue (new_engine w) = Inr e0" and i: "engine_inv w e0"
    by blast
  from execute_sequential_total[OF assms(3,4,5) i] u show ?thesis
    by (simp add: execute_def)
qed

subsection \<open>Reachable states\<close>

lemma reachable_inv:
  assumes "wf_workflow w" and "fresh w"
  shows "reachable run strat w e \<Longrightarrow> engine_inv w e"
proof (induction rule: reachable.induct)
  case (start e)
  then show ?case
    using update_ready_queue_inv[OF mid_inv_new_engine[OF assms]] by auto
next
  case (pass e e')
  then show ?case using sequential_body_inv by blast
qed

lemma execute_sequential_reachable:
  assumes "execute_sequential run strat e = Some (Inr e')" and "reachable run strat w e"
  shows "reachable run strat w e'"
  using execute_sequential_invariant[where I = "reachable run strat w", OF assms]
    reachable.pass by blast

lemma execute_reachable:
  assumes "execute run strat w = Some (Inr e')"
  shows "reachable run strat w e'" and "ready_queue e' = []"
proof -
  obtain e0 where u: "update_ready_queue (new_engine w) = Inr e0"
    and x: "execute_sequential run strat e0 = Some (Inr e')"
    using assms by (auto simp: execute_def split: sum.splits)
  have r: "reachable run strat w e0" using u by (rule reachable.start)
  show "reachable run strat w e'" using x r by (rule execute_sequential_reachable)
  show "ready_queue e' = []"
    using execute_sequential_invariant[where I = "\<lambda>_. True", OF x] by simp
qed

subsection \<open>The log and the retry counters\<close>

lemma attempts_append:
  "attempts run (lg @ [x]) k cmd ok
     = attempts run lg k cmd ok + (if x = k \<and> run (length lg) cmd = Some ok then 1 else 0)"
proof -
  have "filter (\<lambda>i. (lg @ [x]) ! i = k \<and> run i cmd = Some ok) [0..<length lg]
          = filter (\<lambda>i. lg ! i = k \<and> run i cmd = Some ok) [0..<length lg]"
    by (rule filter_cong) (auto simp: nth_append)
  then show ?thesis by (simp add: attempts_def)
qed

lemma attempts_le_count: "attempts run lg k cmd ok \<le> count_list lg k"
proof (induction lg rule: rev_induct)
  case Nil
  then show ?case by (simp add: attempts_def)
next
  case (snoc x xs)
  then show ?case by (auto simp: attempts_append)
qed

lemma inv_log_status_change:
  assumes "inv_log run e" and "execution_order e' = execution_order e"
    and "\<And>k. get_step e' k = get_step e k \<or>
             (\<exists>s st. get_step e k = Some s \<and> status s \<noteq> SUCCESS \<and> status s \<noteq> FAILED \<and>
                     st \<noteq> SUCCESS \<and> st \<noteq> FAILED \<and> get_step e' k = Some (s\<lparr>status := st\<rparr>))"
  shows "inv_log run e'"
  unfolding inv_log_def
proof
  fix k
  have i: "case get_step e k of
            None \<Rightarrow> count_list (execution_order e) k = 0
          | Some s \<Rightarrow>
              attempts run (execution_order e) k (command s) False
                = retry_count s + (if status s = FAILED then 1 else 0) \<and>
              attempts run (execution_order e) k (command s) True
                = (if status s = SUCCESS then 1 else 0) \<and>
              count_list (execution_order e) k
                = attempts run (execution_order e) k (command s) False
                  + attempts run (execution_order e) k (command s) True \<and>
              (case max_retries_of s of
                 None \<Rightarrow> retry_count s = 0
               | Some m \<Rightarrow> int (retry_count s) \<le> max 0 m \<and>
                          (status s = FAILED \<longrightarrow> m \<le> int (retry_count s)))"
    using assms(1) unfolding inv_log_def by blast
  from assms(3)[of k]
  show "case get_step e' k of
            None \<Rightarrow> count_list (execution_order e') k = 0
          | Some s \<Rightarrow>
              attempts run (execution_order e') k (command s) False
                = retry_count s + (if status s = FAILED then 1 else 0) \<and>
              attempts run (execution_order e') k (command s) True
                = (if status s = SUCCESS then 1 else 0) \<and>
              count_list (execution_order e') k
                = attempts run (execution_order e') k (command s) False
                  + attempts run (execution_order e') k (command s) True \<and>
              (case max_retries_of s of
                 None \<Rightarrow> retry_count s = 0
               | Some m \<Rightarrow> int (retry_count s) \<le> max 0 m \<and>
                          (status s = FAILED \<longrightarrow> m \<le> int (retry_count s)))"
  proof
    assume "get_step e' k = get_step e k"
    then show ?thesis using i unfolding assms(2) by (simp only:)
  next
    assume "\<exists>s st. get_step e k = Some s \<and> status s \<noteq> SUCCESS \<and> status s \<noteq> FAILED \<and>
                     st \<noteq> SUCCESS \<and> st \<noteq> FAILED \<and> get_step e' k = Some (s\<lparr>status := st\<rparr>)"
    then obtain s st where s: "get_step e k = Some s" "status s \<noteq> SUCCESS" "status s \<noteq> FAILED"
      "st \<noteq> SUCCESS" "st \<noteq> FAILED" "get_step e' k = Some (s\<lparr>status := st\<rparr>)"
      by blast
    have "max_retries_of (s\<lparr>status := st\<rparr>) = max_retries_of s"
      by (simp add: max_retries_of_def)
    then show ?thesis using i s unfolding assms(2) by (simp split: option.splits)
  qed
qed

lemma inv_log_execute_step:
  assumes i: "inv_log run e3" and r: "status_of e3 k = Some RUNNING"
    and x: "execute_step run k e3 = Inr (b, e4)"
  shows "inv_log run e4"
proof -
  from x obtain s where s: "get_step e3 k = Some s"
    and lg: "execution_order e4 = execution_order e3 @ [k]"
    and oth: "\<And>k'. k' \<noteq> k \<Longrightarrow> get_step e4 k' = get_step e3 k'"
    and b: "run (length (execution_order e3)) (command s) = Some b"
    and t: "b \<Longrightarrow> get_step e4 k = Some (s\<lparr>status := SUCCESS\<rparr>)"
    and f: "\<not> b \<Longrightarrow>
           (case max_retries_of s of
              Some m \<Rightarrow>
                if int (retry_count s) < m
                then get_step e4 k = Some (s\<lparr>retry_count := retry_count s + 1, status := PENDING\<rparr>)
                else get_step e4 k = Some (s\<lparr>status := FAILED\<rparr>)
            | None \<Rightarrow> get_step e4 k = Some (s\<lparr>status := FAILED\<rparr>))"
    by (rule execute_step_effect) blast
  have sr: "status s = RUNNING" using r s by (simp add: status_of_def)
  have ik: "attempts run (execution_order e3) k (command s) False = retry_count s"
    "attempts run (execution_order e3) k (command s) True = 0"
    "count_list (execution_order e3) k
       = attempts run (execution_order e3) k (command s) False
         + attempts run (execution_order e3) k (command s) True"
    "case max_retries_of s of None \<Rightarrow> retry_count s = 0
       | Some m \<Rightarrow> int (retry_count s) \<le> max 0 m"
    using i s sr unfolding inv_log_def
    by (auto dest!: spec[of _ k] split: option.splits)
  have mr: "max_retries_of (s\<lparr>status := st\<rparr>) = max_retries_of s"
    "max_retries_of (s\<lparr>retry_count := n, status := st\<rparr>) = max_retries_of s" for st n
    by (simp_all add: max_retries_of_def)
  show ?thesis
    unfolding inv_log_def
  proof
    fix k'
    show "case get_step e4 k' of
            None \<Rightarrow> count_list (execution_order e4) k' = 0
          | Some s \<Rightarrow>
              attempts run (execution_order e4) k' (command s) False
                = retry_count s + (if status s = FAILED then 1 else 0) \<and>
              attempts run (execution_order e4) k' (command s) True
                = (if status s = SUCCESS then 1 else 0) \<and>
              count_list (execution_order e4) k'
                = attempts run (execution_order e4) k' (command s) False
                  + attempts run (execution_order e4) k' (command s) True \<and>
              (case max_retries_of s of
                 None \<Rightarrow> retry_count s = 0
               | Some m \<Rightarrow> int (retry_count s) \<le> max 0 m \<and>
                          (status s = FAILED \<longrightarrow> m \<le> int (retry_count s)))"
    proof (cases "k' = k")
      case False
      have "case get_step e3 k' of
            None \<Rightarrow> count_list (execution_order e3) k' = 0
          | Some s \<Rightarrow>
              attempts run (execution_order e3) k' (command s) False
                = retry_count s + (if status s = FAILED then 1 else 0) \<and>
              attempts run (execution_order e3) k' (command s) True
                = (if status s = SUCCESS then 1 else 0) \<and>
              count_list (execution_order e3) k'
                = attempts run (execution_order e3) k' (command s) False
                  + attempts run (execution_order e3) k' (command s) True \<and>
              (case max_retries_of s of
                 None \<Rightarrow> retry_count s = 0
               | Some m \<Rightarrow> int (retry_count s) \<le> max 0 m \<and>
                          (status s = FAILED \<longrightarrow> m \<le> int (retry_count s)))"
        using i unfolding inv_log_def by blast
      then show ?thesis
        using False oth[OF False] lg
        by (cases "get_step e3 k'") (simp_all add: attempts_append)
    next
      case True
      show ?thesis
      proof (cases b)
        case bt: True
        then have "get_step e4 k = Some (s\<lparr>status := SUCCESS\<rparr>)" using t by simp
        then show ?thesis
          using True ik lg b bt mr by (simp add: attempts_append split: option.splits)
      next
        case bf: False
        show ?thesis
        proof (cases "max_retries_of s")
          case None
          then have "get_step e4 k = Some (s\<lparr>status := FAILED\<rparr>)" using f bf by simp
          then show ?thesis
            using True ik lg b bf mr None by (simp add: attempts_append)
        next
          case (Some m)
          show ?thesis
          proof (cases "int (retry_count s) < m")
            case lt: True
            then have "get_step e4 k = Some (s\<lparr>retry_count := retry_count s + 1, status := PENDING\<rparr>)"
              using f bf Some by simp
            then show ?thesis
              using True ik lg b bf mr Some lt by (simp add: attempts_append)
          next
            case ge: False
            then have "get_step e4 k = Some (s\<lparr>status := FAILED\<rparr>)"
              using f bf Some by simp
            then show ?thesis
              using True ik lg b bf mr Some ge by (simp add: attempts_append)
          qed
        qed
      qed
    qed
  qed
qed

lemma inv_log_body:
  assumes inv: "engine_inv w e" and i: "inv_log run e"
    and body: "sequential_body run strat e = Inr (True, e6)"
  shows "inv_log run e6"
proof (rule sequential_body_phases[OF inv body])
  fix k e1 e3 b e4 e5
  assume n: "get_next_step strat e = Inr (Some k, e1)"
    and e3: "e3 = set_status k RUNNING (e1\<lparr>ready_queue := remove1 k (ready_queue e1)\<rparr>)"
    and x: "execute_step run k e3 = Inr (b, e4)"
    and pc: "pre_cascade w k e4"
    and f: "status_of e4 k = Some FAILED \<Longrightarrow> skip_dependents k e4 = Inr e5"
    and nf: "status_of e4 k \<noteq> Some FAILED \<Longrightarrow> e5 = e4"
    and m5: "mid_inv w e5" and nr5: "\<forall>x. status_of e5 x \<noteq> Some RUNNING"
    and u: "update_ready_queue e5 = Inr e6"
    and i6: "engine_inv w e6"
  note d = dispatch_inv[OF inv n, folded e3]
  have i3: "inv_log run e3"
  proof (rule inv_log_status_change[OF i d(7)])
    fix y
    show "get_step e3 y = get_step e y \<or>
             (\<exists>s st. get_step e y = Some s \<and> status s \<noteq> SUCCESS \<and> status s \<noteq> FAILED \<and>
                     st \<noteq> SUCCESS \<and> st \<noteq> FAILED \<and> get_step e3 y = Some (s\<lparr>status := st\<rparr>))"
    proof (cases "y = k")
      case True
      obtain s where "get_step e k = Some s" "status s = READY"
        using d(2) by (auto simp: status_of_def)
      then show ?thesis using True d(6) by auto
    next
      case False
      then show ?thesis using d(5) by simp
    qed
  qed
  have i4: "inv_log run e4" using i3 d(4) x by (rule inv_log_execute_step)
  have i5: "inv_log run e5"
  proof (cases "status_of e4 k = Some FAILED")
    case False
    then show ?thesis using nf i4 by simp
  next
    case True
    note fr = skip_dependents_frame[OF f[OF True]]
    show ?thesis
    proof (rule inv_log_status_change[OF i4])
      show "execution_order e5 = execution_order e4" using fr by simp
      fix y
      show "get_step e5 y = get_step e4 y \<or>
             (\<exists>s st. get_step e4 y = Some s \<and> status s \<noteq> SUCCESS \<and> status s \<noteq> FAILED \<and>
                     st \<noteq> SUCCESS \<and> st \<noteq> FAILED \<and> get_step e5 y = Some (s\<lparr>status := st\<rparr>))"
      proof -
        have "get_step e5 y = get_step e4 y \<or>
          (\<exists>s. get_step e4 y = Some s \<and> is_active s \<and> get_step e5 y = Some (s\<lparr>status := SKIPPED\<rparr>))"
          using fr by blast
        then show ?thesis
        proof
          assume "get_step e5 y = get_step e4 y"
          then show ?thesis by simp
        next
          assume "\<exists>s. get_step e4 y = Some s \<and> is_active s \<and> get_step e5 y = Some (s\<lparr>status := SKIPPED\<rparr>)"
          then obtain s where "get_step e4 y = Some s" "is_active s"
            "get_step e5 y = Some (s\<lparr>status := SKIPPED\<rparr>)" by blast
          moreover from this have "status s \<noteq> SUCCESS \<and> status s \<noteq> FAILED"
            by (auto simp: is_active_def)
          ultimately show ?thesis by blast
        qed
      qed
    qed
  qed
  from update_ready_queue_inv[OF m5 nr5] u
  have l6: "execution_order e6 = execution_order e5"
    and ch: "\<forall>x. get_step e6 x = get_step e5 x \<or>
               (status_of e5 x = Some PENDING \<and> deps_success e5 x \<and>
                (\<exists>s. get_step e5 x = Some s \<and>
                     (get_step e6 x = Some (s\<lparr>status := READY\<rparr>) \<or>
                      get_step e6 x = Some (s\<lparr>status := SKIPPED\<rparr>))))"
    by auto
  show "inv_log run e6"
  proof (rule inv_log_status_change[OF i5 l6])
    fix y
    show "get_step e6 y = get_step e5 y \<or>
             (\<exists>s st. get_step e5 y = Some s \<and> status s \<noteq> SUCCESS \<and> status s \<noteq> FAILED \<and>
                     st \<noteq> SUCCESS \<and> st \<noteq> FAILED \<and> get_step e6 y = Some (s\<lparr>status := st\<rparr>))"
      using ch[rule_format, of y] by (auto simp: status_of_def)
  qed
qed

lemma inv_log_new_engine: "fresh w \<Longrightarrow> inv_log run (new_engine w)"
  unfolding inv_log_def
proof
  fix k
  assume fr: "fresh w"
  show "case get_step (new_engine w) k of
            None \<Rightarrow> count_list (execution_order (new_engine w)) k = 0
          | Some s \<Rightarrow>
              attempts run (execution_order (new_engine w)) k (command s) False
                = retry_count s + (if status s = FAILED then 1 else 0) \<and>
              attempts run (execution_order (new_engine w)) k (command s) True
                = (if status s = SUCCESS then 1 else 0) \<and>
              count_list (execution_order (new_engine w)) k
                = attempts run (execution_order (new_engine w)) k (command s) False
                  + attempts run (execution_order (new_engine w)) k (command s) True \<and>
              (case max_retries_of s of
                 None \<Rightarrow> retry_count s = 0
               | Some m \<Rightarrow> int (retry_count s) \<le> max 0 m \<and>
                          (status s = FAILED \<longrightarrow> m \<le> int (retry_count s)))"
  proof (cases "get_step (new_engine w) k")
    case None
    then show ?thesis by (simp add: new_engine_def)
  next
    case (Some s)
    then have "(k, s) \<in> set (steps w)"
      by (auto simp: get_step_def new_engine_def dest: map_of_SomeD)
    then have "status s = PENDING" "retry_count s = 0"
      using fr by (auto simp: fresh_def)
    then show ?thesis
      using Some by (simp add: new_engine_def attempts_def split: option.splits)
  qed
qed

lemma reachable_inv_log:
  assumes "wf_workflow w" and "fresh w"
  shows "reachable run strat w e \<Longrightarrow> inv_log run e"
proof (induction rule: reachable.induct)
  case (start e)
  from update_ready_queue_inv[OF mid_inv_new_engine[OF assms]] start
  have l: "execution_order e = execution_order (new_engine w)"
    and ch: "\<forall>x. get_step e x = get_step (new_engine w) x \<or>
               (status_of (new_engine w) x = Some PENDING \<and> deps_success (new_engine w) x \<and>
                (\<exists>s. get_step (new_engine w) x = Some s \<and>
                     (get_step e x = Some (s\<lparr>status := READY\<rparr>) \<or>
                      get_step e x = Some (s\<lparr>status := SKIPPED\<rparr>))))"
    by auto
  show ?case
  proof (rule inv_log_status_change[OF inv_log_new_engine[OF assms(2)] l])
    fix y
    show "get_step e y = get_step (new_engine w) y \<or>
             (\<exists>s st. get_step (new_engine w) y = Some s \<and> status s \<noteq> SUCCESS \<and> status s \<noteq> FAILED \<and>
                     st \<noteq> SUCCESS \<and> st \<noteq> FAILED \<and> get_step e y = Some (s\<lparr>status := st\<rparr>))"
      using ch[rule_format, of y] by (auto simp: status_of_def)
  qed
next
  case (pass e e')
  then show ?case using inv_log_body reachable_inv[OF assms] by blast
qed

subsection \<open>What a pass changes\<close>

lemma sequential_body_dispatch:
  assumes inv: "engine_inv w e" and body: "sequential_body run strat e = Inr (True, e6)"
  shows "\<exists>k e1. get_next_step strat e = Inr (Some k, e1) \<and> status_of e k = Some READY \<and>
           deps_success e k \<and> execution_order e6 = execution_order e @ [k] \<and>
           (\<forall>x. status_of e x \<in> {Some SUCCESS, Some FAILED, Some SKIPPED}
                \<longrightarrow> x \<noteq> k \<and> get_step e6 x = get_step e x)"
proof (rule sequential_body_phases[OF inv body])
  fix k e1 e3 b e4 e5
  assume n: "get_next_step strat e = Inr (Some k, e1)"
    and e3: "e3 = set_status k RUNNING (e1\<lparr>ready_queue := remove1 k (ready_queue e1)\<rparr>)"
    and x: "execute_step run k e3 = Inr (b, e4)"
    and pc: "pre_cascade w k e4"
    and f: "status_of e4 k = Some FAILED \<Longrightarrow> skip_dependents k e4 = Inr e5"
    and nf: "status_of e4 k \<noteq> Some FAILED \<Longrightarrow> e5 = e4"
    and m5: "mid_inv w e5" and nr5: "\<forall>x. status_of e5 x \<noteq> Some RUNNING"
    and u: "update_ready_queue e5 = Inr e6"
    and i6: "engine_inv w e6"
  note d = dispatch_inv[OF inv n, folded e3]
  from x obtain s where lg4: "execution_order e4 = execution_order e3 @ [k]"
    and oth4: "\<And>k'. k' \<noteq> k \<Longrightarrow> get_step e4 k' = get_step e3 k'"
    by (rule execute_step_effect) blast
  have fr5: "execution_order e5 = execution_order e4 \<and>
     (\<forall>x. get_step e5 x = get_step e4 x \<or>
          (\<exists>s. get_step e4 x = Some s \<and> is_active s \<and> get_step e5 x = Some (s\<lparr>status := SKIPPED\<rparr>)))"
  proof (cases "status_of e4 k = Some FAILED")
    case True
    then show ?thesis using skip_dependents_frame[OF f[OF True]] by blast
  next
    case False
    then show ?thesis using nf by simp
  qed
  from update_ready_queue_inv[OF m5 nr5] u
  have l6: "execution_order e6 = execution_order e5"
    and ch: "\<forall>x. get_step e6 x = get_step e5 x \<or>
               (status_of e5 x = Some PENDING \<and> deps_success e5 x \<and>
                (\<exists>s. get_step e5 x = Some s \<and>
                     (get_step e6 x = Some (s\<lparr>status := READY\<rparr>) \<or>
                      get_step e6 x = Some (s\<lparr>status := SKIPPED\<rparr>))))"
    by auto
  have lg: "execution_order e6 = execution_order e @ [k]"
    using l6 fr5 lg4 d(7) by simp
  have stable: "x \<noteq> k \<and> get_step e6 x = get_step e x"
    if t: "status_of e x \<in> {Some SUCCESS, Some FAILED, Some SKIPPED}" for x
  proof -
    have xk: "x \<noteq> k" using t d(2) by auto
    then have g4: "get_step e4 x = get_step e x" using oth4 d(5) by simp
    then have na: "\<forall>s. get_step e4 x = Some s \<longrightarrow> \<not> is_active s"
      using t by (auto simp: status_of_def is_active_def)
    then have g5: "get_step e5 x = get_step e4 x" using fr5 by blast
    then have "status_of e5 x \<noteq> Some PENDING" using g4 t by (auto simp: status_of_def)
    then have "get_step e6 x = get_step e5 x" using ch by blast
    then show ?thesis using xk g4 g5 by simp
  qed
  show ?thesis
    using n d(2,3) lg stable by blast
qed

lemma deps_satisfied_True:
  "deps_satisfied w ds = Inr True \<Longrightarrow>
     \<forall>d\<in>set ds. map_option status (map_of (steps w) d) = Some SUCCESS"
  by (induction ds) (auto split: option.splits if_splits)

lemma update_ready_step_ready:
  assumes "update_ready_step k e = Inr e'" and "status_of e k = Some PENDING"
    and "status_of e' k = Some READY"
  shows "deps_success e k"
proof -
  obtain s where s: "get_step e k = Some s" "status s = PENDING"
    using assms(2) by (auto simp: status_of_def)
  have "deps_satisfied (workflow e) (dependencies s) = Inr True"
  proof (rule ccontr)
    assume n: "deps_satisfied (workflow e) (dependencies s) \<noteq> Inr True"
    then have "e' = e"
      using assms(1) s by (auto simp: update_ready_step_def split: sum.splits if_splits)
    then show False using assms(2,3) by simp
  qed
  from deps_satisfied_True[OF this] show ?thesis
    using s by (simp add: deps_success_iff deps_map_def get_step_def status_of_def)
qed

section \<open>Effect of one pass on the steps\<close>

lemma update_ready_step_frame:
  assumes "update_ready_step k e = Inr e'"
  shows "get_step e' x = get_step e x \<or>
         (\<exists>s. get_step e x = Some s \<and> status s = PENDING \<and>
              (get_step e' x = Some (s\<lparr>status := READY\<rparr>) \<or>
               get_step e' x = Some (s\<lparr>status := SKIPPED\<rparr>) \<and> truthy (condition s)))"
  using assms
  by (auto simp: update_ready_step_def get_step_set_status get_step_queue_update
      split: option.splits if_splits sum.splits)

lemma update_ready_loop_frame:
  "update_ready_loop ks e = Inr e' \<Longrightarrow>
     get_step e' x = get_step e x \<or>
     (\<exists>s. get_step e x = Some s \<and> status s = PENDING \<and>
          (get_step e' x = Some (s\<lparr>status := READY\<rparr>) \<or>
           get_step e' x = Some (s\<lparr>status := SKIPPED\<rparr>) \<and> truthy (condition s)))"
proof (induction ks arbitrary: e)
  case Nil
  then show ?case by simp
next
  case (Cons k ks)
  then obtain e1 where s: "update_ready_step k e = Inr e1" and l: "update_ready_loop ks e1 = Inr e'"
    by (auto split: sum.splits)
  from update_ready_step_frame[OF s, of x]
  show ?case
  proof
    assume "get_step e1 x = get_step e x"
    then show ?thesis using Cons.IH[OF l] by simp
  next
    assume "\<exists>s. get_step e x = Some s \<and> status s = PENDING \<and>
              (get_step e1 x = Some (s\<lparr>status := READY\<rparr>) \<or>
               get_step e1 x = Some (s\<lparr>status := SKIPPED\<rparr>) \<and> truthy (condition s))"
    then obtain s0 where s0: "get_step e x = Some s0" "status s0 = PENDING"
      "get_step e1 x = Some (s0\<lparr>status := READY\<rparr>) \<or>
       get_step e1 x = Some (s0\<lparr>status := SKIPPED\<rparr>) \<and> truthy (condition s0)"
      by blast
    then have "\<not> (\<exists>s. get_step e1 x = Some s \<and> status s = PENDING)" by auto
    then have "get_step e' x = get_step e1 x" using Cons.IH[OF l] by blast
    then show ?thesis using s0 by simp
  qed
qed

lemma update_ready_queue_frame:
  "update_ready_queue e = Inr e' \<Longrightarrow>
     get_step e' x = get_step e x \<or>
     (\<exists>s. get_step e x = Some s \<and> status s = PENDING \<and>
          (get_step e' x = Some (s\<lparr>status := READY\<rparr>) \<or>
           get_step e' x = Some (s\<lparr>status := SKIPPED\<rparr>) \<and> truthy (condition s)))"
  unfolding update_ready_queue_def by (rule update_ready_loop_frame)

text \<open>What one pass of the loop does to each step.\<close>

lemma sequential_body_steps:
  assumes inv: "engine_inv w e" and body: "sequential_body run strat e = Inr (True, e6)"
  obtains k s b where
    "get_step e k = Some s" "status s = READY" "deps_success e k"
    "k \<in> set (ready_queue e)"
    "execution_order e6 = execution_order e @ [k]"
    "run (length (execution_order e)) (command s) = Some b"
    "engine_inv w e6"
    "\<And>x. status_of e x \<in> {Some SUCCESS, Some FAILED, Some SKIPPED}
          \<Longrightarrow> x \<noteq> k \<and> get_step e6 x = get_step e x"
    "\<And>x sx. get_step e6 x = Some sx \<Longrightarrow> status sx = SKIPPED \<Longrightarrow> status_of e x \<noteq> Some SKIPPED
          \<Longrightarrow> truthy (condition sx) \<and> deps_success e6 x \<or>
              (status_of e6 k = Some FAILED \<and> (x, k) \<in> (dep_rel w)\<^sup>+)"
    "\<And>x. deps_success e x \<Longrightarrow> deps_success e6 x"
proof (rule sequential_body_phases[OF inv body])
  fix k e1 e3 b e4 e5
  assume n: "get_next_step strat e = Inr (Some k, e1)"
    and e3: "e3 = set_status k RUNNING (e1\<lparr>ready_queue := remove1 k (ready_queue e1)\<rparr>)"
    and x: "execute_step run k e3 = Inr (b, e4)"
    and pc: "pre_cascade w k e4"
    and f: "status_of e4 k = Some FAILED \<Longrightarrow> skip_dependents k e4 = Inr e5"
    and nf: "status_of e4 k \<noteq> Some FAILED \<Longrightarrow> e5 = e4"
    and m5: "mid_inv w e5" and nr5: "\<forall>x. status_of e5 x \<noteq> Some RUNNING"
    and u: "update_ready_queue e5 = Inr e6"
    and i6: "engine_inv w e6"
  note d = dispatch_inv[OF inv n, folded e3]
  obtain s where s: "get_step e k = Some s" "status s = READY"
    using d(2) by (auto simp: status_of_def)
  have q: "k \<in> set (ready_queue e)"
    using inv d(2) by (simp add: engine_inv_def mid_inv_def inv_queue_def)
  from x obtain s3 where s3: "get_step e3 k = Some s3"
    and lg: "execution_order e4 = execution_order e3 @ [k]"
    and oth: "\<And>k'. k' \<noteq> k \<Longrightarrow> get_step e4 k' = get_step e3 k'"
    and b: "run (length (execution_order e3)) (command s3) = Some b"
    by (rule execute_step_effect) blast
  have s3s: "s3 = s\<lparr>status := RUNNING\<rparr>" using d(6) s s3 by simp
  have st4: "status_of e4 k \<in> {Some SUCCESS, Some FAILED, Some PENDING}"
    using execute_step_status(1)[OF x] .
  have fr5: "\<And>y. get_step e5 y = get_step e4 y \<or>
          (\<exists>s. get_step e4 y = Some s \<and> is_active s \<and> get_step e5 y = Some (s\<lparr>status := SKIPPED\<rparr>))"
    and lg5: "execution_order e5 = execution_order e4"
  proof -
    show "get_step e5 y = get_step e4 y \<or>
          (\<exists>s. get_step e4 y = Some s \<and> is_active s \<and> get_step e5 y = Some (s\<lparr>status := SKIPPED\<rparr>))" for y
    proof (cases "status_of e4 k = Some FAILED")
      case True
      then show ?thesis using skip_dependents_frame[OF f[OF True]] by blast
    next
      case False
      then show ?thesis using nf by simp
    qed
    show "execution_order e5 = execution_order e4"
    proof (cases "status_of e4 k = Some FAILED")
      case True
      then show ?thesis using skip_dependents_frame[OF f[OF True]] by blast
    next
      case False
      then show ?thesis using nf by simp
    qed
  qed
  from update_ready_queue_inv[OF m5 nr5] u
  have lg6: "execution_order e6 = execution_order e5"
    and ds6: "\<And>y. deps_success e6 y = deps_success e5 y"
    by auto
  note fr6 = update_ready_queue_frame[OF u]
  have stab: "x \<noteq> k \<and> get_step e6 x = get_step e x"
    if t: "status_of e x \<in> {Some SUCCESS, Some FAILED, Some SKIPPED}" for x
  proof -
    have xk: "x \<noteq> k" using t d(2) by auto
    have g4: "get_step e4 x = get_step e x" using oth[OF xk] d(5)[OF xk] by simp
    have "get_step e5 x = get_step e4 x"
      using fr5[of x] g4 t by (auto simp: status_of_def is_active_def)
    moreover have "get_step e6 x = get_step e5 x"
      using fr6[of x] calculation g4 t by (auto simp: status_of_def)
    ultimately show ?thesis using xk g4 by simp
  qed
  have skp: "truthy (condition sx) \<and> deps_success e6 x \<or>
              (status_of e6 k = Some FAILED \<and> (x, k) \<in> (dep_rel w)\<^sup>+)"
    if g: "get_step e6 x = Some sx" and sk: "status sx = SKIPPED"
      and ns: "status_of e x \<noteq> Some SKIPPED" for x sx
  proof -
    have n4: "status_of e4 x \<noteq> Some SKIPPED"
    proof (cases "x = k")
      case True
      then show ?thesis using st4 by auto
    next
      case False
      then show ?thesis using oth[OF False] d(5)[OF False] ns by (simp add: status_of_def)
    qed
    show ?thesis
    proof (cases "status_of e5 x = Some SKIPPED")
      case False
      from fr6[of x] g sk False
      have tr: "truthy (condition sx)" and ne: "get_step e6 x \<noteq> get_step e5 x"
        by (auto simp: status_of_def)
      from update_ready_queue_inv[OF m5 nr5] u
      have "get_step e6 x = get_step e5 x \<or> deps_success e5 x" by auto
      then have "deps_success e5 x" using ne by simp
      then show ?thesis using tr ds6 by simp
    next
      case True
      then have ne: "get_step e5 x \<noteq> get_step e4 x" using n4 by (auto simp: status_of_def)
      then have fk: "status_of e4 k = Some FAILED" using nf by auto
      from cascade_inv[OF pc fk] f[OF fk]
      have c: "\<And>y. (y, k) \<notin> (dep_rel w)\<^sup>+ \<Longrightarrow> get_step e5 y = get_step e4 y"
        by auto
      have xk: "(x, k) \<in> (dep_rel w)\<^sup>+" using c[of x] ne by blast
      have "get_step e5 k = get_step e4 k"
        using fr5[of k] fk by (auto simp: status_of_def is_active_def)
      moreover have "get_step e6 k = get_step e5 k"
        using fr6[of k] calculation fk by (auto simp: status_of_def)
      ultimately have "status_of e6 k = Some FAILED" using fk by (simp add: status_of_def)
      then show ?thesis using xk by simp
    qed
  qed
  have g6: "same_graph w (workflow e6)" and g0: "same_graph w (workflow e)"
    using i6 inv by (simp_all add: engine_inv_def mid_inv_def)
  have dsm: "deps_success e6 x" if dx: "deps_success e x" for x
  proof -
    have "status_of e6 d = Some SUCCESS" if "d \<in> set (deps_map w x)" for d
    proof -
      have "status_of e d = Some SUCCESS"
        using dx that same_graph_deps_map[OF g0, of x] by (simp add: deps_success_iff)
      then show ?thesis using stab[of d] by (simp add: status_of_def)
    qed
    then show ?thesis using same_graph_deps_map[OF g6, of x] by (simp add: deps_success_iff)
  qed
  show thesis
  proof (rule that[of k s b])
    show "get_step e k = Some s" "status s = READY" by (rule s)+
    show "deps_success e k" by (rule d(3))
    show "k \<in> set (ready_queue e)" by (rule q)
    show "execution_order e6 = execution_order e @ [k]"
      using lg lg5 lg6 d(7) by simp
    show "run (length (execution_order e)) (command s) = Some b"
      using b d(7) s3s by simp
    show "engine_inv w e6" by (rule i6)
    show "\<And>x. status_of e x \<in> {Some SUCCESS, Some FAILED, Some SKIPPED}
          \<Longrightarrow> x \<noteq> k \<and> get_step e6 x = get_step e x" by (rule stab)
    show "\<And>x sx. get_step e6 x = Some sx \<Longrightarrow> status sx = SKIPPED \<Longrightarrow> status_of e x \<noteq> Some SKIPPED
          \<Longrightarrow> truthy (condition sx) \<and> deps_success e6 x \<or>
              (status_of e6 k = Some FAILED \<and> (x, k) \<in> (dep_rel w)\<^sup>+)" by (rule skp)
    show "\<And>x. deps_success e x \<Longrightarrow> deps_success e6 x" by (rule dsm)
  qed
qed

lemma inv_dispatched_body:
  assumes inv: "engine_inv w e" and i: "inv_dispatched e"
    and body: "sequential_body run strat e = Inr (True, e6)"
  shows "inv_dispatched e6"
proof (rule sequential_body_steps[OF inv body])
  fix k s b
  assume lg: "execution_order e6 = execution_order e @ [k]"
    and dk: "deps_success e k"
    and i6: "engine_inv w e6"
    and stab: "\<And>x. status_of e x \<in> {Some SUCCESS, Some FAILED, Some SKIPPED}
          \<Longrightarrow> x \<noteq> k \<and> get_step e6 x = get_step e x"
    and skp: "\<And>x sx. get_step e6 x = Some sx \<Longrightarrow> status sx = SKIPPED \<Longrightarrow> status_of e x \<noteq> Some SKIPPED
          \<Longrightarrow> truthy (condition sx) \<and> deps_success e6 x \<or>
              (status_of e6 k = Some FAILED \<and> (x, k) \<in> (dep_rel w)\<^sup>+)"
    and dsm: "\<And>x. deps_success e x \<Longrightarrow> deps_success e6 x"
  have m6: "mid_inv w e6" using i6 by (simp add: engine_inv_def)
  have g6: "same_graph w (workflow e6)" and c6: "inv_cascade e6"
    using m6 by (simp_all add: mid_inv_def)
  have rel6: "dep_rel (workflow e6) = dep_rel w" using m6 by (rule mid_inv_dep_rel)
  show ?thesis
    unfolding inv_dispatched_def
  proof (intro allI conjI impI)
    fix x
    assume "x \<in> set (execution_order e6)"
    then have "x \<in> set (execution_order e) \<or> x = k" using lg by auto
    then have "deps_success e x" using i dk by (auto simp: inv_dispatched_def)
    then show "deps_success e6 x" by (rule dsm)
  next
    fix x sx
    assume g: "get_step e6 x = Some sx" and sk: "status sx = SKIPPED"
      and nt: "\<not> truthy (condition sx)"
    have dm: "deps_map w x = dependencies sx"
      using same_graph_deps_map[OF g6, of x] g by (simp add: deps_map_def get_step_def)
    show "\<exists>d\<in>set (dependencies sx). status_of e6 d = Some FAILED \<or> status_of e6 d = Some SKIPPED"
    proof (cases "status_of e x = Some SKIPPED")
      case True
      then have "get_step e6 x = get_step e x" using stab[of x] by simp
      then have "get_step e x = Some sx" using g by simp
      then obtain d where d: "d \<in> set (dependencies sx)"
        "status_of e d = Some FAILED \<or> status_of e d = Some SKIPPED"
        using i sk nt unfolding inv_dispatched_def by blast
      then have "get_step e6 d = get_step e d" using stab[of d] by auto
      then have "status_of e6 d = status_of e d" by (simp add: status_of_def)
      then show ?thesis using d by auto
    next
      case False
      from skp[OF g sk False] nt
      have fk: "status_of e6 k = Some FAILED" and xk: "(x, k) \<in> (dep_rel w)\<^sup>+" by auto
      from xk obtain d where d: "(x, d) \<in> dep_rel w" "(d, k) \<in> (dep_rel w)\<^sup>*"
        by (meson tranclD)
      have dd: "d \<in> set (dependencies sx)" using d(1) dm by (simp add: dep_rel_def)
      from d(2) have "d = k \<or> (d, k) \<in> (dep_rel w)\<^sup>+" by (meson rtranclD)
      then have "status_of e6 d = Some FAILED \<or> status_of e6 d = Some SKIPPED"
      proof
        assume "d = k"
        then show ?thesis using fk by simp
      next
        assume "(d, k) \<in> (dep_rel w)\<^sup>+"
        then have "status_of e6 d = Some SKIPPED"
          using c6 fk rel6 unfolding inv_cascade_def by simp
        then show ?thesis by simp
      qed
      then show ?thesis using dd by blast
    qed
  qed
qed

lemma reachable_inv_dispatched:
  assumes "wf_workflow w" and "fresh w"
  shows "reachable run strat w e \<Longrightarrow> inv_dispatched e"
proof (induction rule: reachable.induct)
  case (start e)
  from update_ready_queue_inv[OF mid_inv_new_engine[OF assms]] start
  have l: "execution_order e = execution_order (new_engine w)" by auto
  have p: "\<exists>s. get_step (new_engine w) x = Some s \<and> status s = PENDING"
    if g: "get_step e x = Some sx" for x sx
  proof -
    obtain s0 where s0: "get_step (new_engine w) x = Some s0"
      using update_ready_queue_frame[OF start, of x] g by (cases "get_step (new_engine w) x") auto
    then have "status_of (new_engine w) x = Some (status s0)" by (simp add: status_of_def)
    then have "status s0 = PENDING" by (rule status_of_new_engine[OF assms(2)])
    then show ?thesis using s0 by simp
  qed
  show ?case
    unfolding inv_dispatched_def
  proof (intro allI conjI impI)
    fix x
    assume "x \<in> set (execution_order e)"
    then show "deps_success e x" using l by (simp add: new_engine_def)
  next
    fix x sx
    assume g: "get_step e x = Some sx" and sk: "status sx = SKIPPED"
      and nt: "\<not> truthy (condition sx)"
    from p[OF g] update_ready_queue_frame[OF start, of x] g sk nt
    have False by auto
    then show "\<exists>d\<in>set (dependencies sx). status_of e d = Some FAILED \<or> status_of e d = Some SKIPPED"
      by simp
  qed
next
  case (pass e e')
  then show ?case using inv_dispatched_body reachable_inv[OF assms] by blast
qed

section \<open>The example workflows\<close>

lemma ex_steps: "steps ex_workflow =
  [(''A'', new_step ''A'' ''a''),
   (''B'', (new_step ''B'' ''b'')\<lparr>failure_strategy := Some ''retry:2'', dependencies := [''A'']\<rparr>),
   (''C'', (new_step ''C'' ''c'')\<lparr>condition := Some ''status_B == failed'', dependencies := [''A'']\<rparr>),
   (''D'', (new_step ''D'' ''d'')\<lparr>dependencies := [''B'']\<rparr>)]"
  by (simp add: ex_workflow_def add_step_def add_dependency_def new_workflow_def new_step_def)

lemma ex_inverse: "inverse_dependencies ex_workflow =
  [(''A'', [''B'', ''C'']), (''B'', [''D'']), (''C'', []), (''D'', [])]"
  by (simp add: ex_workflow_def add_step_def add_dependency_def new_workflow_def new_step_def)

lemma ex_fresh: "fresh ex_workflow"
  by (simp add: fresh_def ex_steps new_step_def)

lemma ex_wf: "wf_workflow ex_workflow"
  unfolding wf_workflow_def
  by (auto simp: ex_steps ex_inverse new_step_def deps_map_def)

lemma ex_retry_ok: "retry_ok ex_workflow"
  by code_simp

lemma ex_execute: "execute ex_run None ex_workflow = Some (Inr ex_final)"
  by code_simp

lemma chain_steps: "steps chain_workflow =
  [(''A'', new_step ''A'' ''a''),
   (''B'', (new_step ''B'' ''b'')\<lparr>condition := Some ''status_A == failed'', dependencies := [''A'']\<rparr>),
   (''C'', (new_step ''C'' ''c'')\<lparr>dependencies := [''B'']\<rparr>)]"
  by (simp add: chain_workflow_def add_step_def add_dependency_def new_workflow_def new_step_def)

lemma chain_inverse: "inverse_dependencies chain_workflow =
  [(''A'', [''B'']), (''B'', [''C'']), (''C'', [])]"
  by (simp add: chain_workflow_def add_step_def add_dependency_def new_workflow_def new_step_def)

lemma chain_fresh: "fresh chain_workflow"
  by (simp add: fresh_def chain_steps new_step_def)

lemma chain_wf: "wf_workflow chain_workflow"
  unfolding wf_workflow_def
  by (auto simp: chain_steps chain_inverse new_step_def deps_map_def)

lemma chain_retry_ok: "retry_ok chain_workflow"
  by code_simp

lemma chain_execute: "execute ok_run None chain_workflow = Some (Inr chain_final)"
  by code_simp

lemma chain_validate: "validate_workflow 1000 chain_workflow = Inr True"
  by code_simp

lemma ex_validate: "validate_workflow 1000 ex_workflow = Inr True"
  by code_simp

section \<open>End of a run\<close>

lemma finite_dep_rel: "finite (dep_rel w)"
proof -
  have "dep_rel w \<subseteq> fst ` set (steps w) \<times> (\<Union>p\<in>set (steps w). set (dependencies (snd p)))"
  proof
    fix p
    assume "p \<in> dep_rel w"
    then obtain s where s: "map_of (steps w) (fst p) = Some s" "snd p \<in> set (dependencies s)"
      by (cases p) (auto simp: dep_rel_iff)
    then have "(fst p, s) \<in> set (steps w)" by (auto dest: map_of_SomeD)
    then have "fst p \<in> fst ` set (steps w)"
      and "snd p \<in> (\<Union>p\<in>set (steps w). set (dependencies (snd p)))"
      using s(2) by force+
    then show "p \<in> fst ` set (steps w) \<times> (\<Union>p\<in>set (steps w). set (dependencies (snd p)))"
      by (cases p) auto
  qed
  then show ?thesis by (rule finite_subset) simp
qed

lemma pending_has_skipped_ancestor:
  assumes inv: "engine_inv w e" and q: "ready_queue e = []" and ac: "acyclic (dep_rel w)"
  shows "status_of e k = Some PENDING \<Longrightarrow>
     \<exists>d. (k, d) \<in> (dep_rel w)\<^sup>+ \<and> status_of e d = Some SKIPPED \<and> deps_success e d"
proof -
  have m: "mid_inv w e" and settled: "inv_settled e"
    using inv by (simp_all add: engine_inv_def)
  have wf: "wf_workflow w" and g: "same_graph w (workflow e)" and iq: "inv_queue e"
    and sk: "inv_skipped e" and c: "inv_cascade e"
    using m by (simp_all add: mid_inv_def)
  have rel: "dep_rel (workflow e) = dep_rel w" using m by (rule mid_inv_dep_rel)
  have w: "wf ((dep_rel w)\<inverse>)"
    using finite_dep_rel ac by (rule finite_acyclic_wf_converse)
  show "status_of e k = Some PENDING \<Longrightarrow>
     \<exists>d. (k, d) \<in> (dep_rel w)\<^sup>+ \<and> status_of e d = Some SKIPPED \<and> deps_success e d"
  proof (induction k rule: wf_induct_rule[OF w])
    case (1 k)
    have "\<not> deps_success e k" using settled 1(2) by (simp add: inv_settled_def)
    then obtain d where d: "d \<in> set (deps_map w k)" "status_of e d \<noteq> Some SUCCESS"
      using same_graph_deps_map[OF g, of k] by (auto simp: deps_success_iff)
    have e: "(k, d) \<in> dep_rel w" using d(1) by (simp add: dep_rel_def)
    then have "d \<in> fst ` set (steps w)" using wf_dep_key[OF wf] by blast
    then obtain s where "get_step e d = Some s"
      using same_graph_get_step_key[OF g, of d] by auto
    then have so: "status_of e d = Some (status s)" by (simp add: status_of_def)
    have nf: "status_of e f = Some FAILED \<Longrightarrow> (k, f) \<notin> (dep_rel w)\<^sup>+" for f
      using c 1(2) rel unfolding inv_cascade_def by fastforce
    have "status s = PENDING \<or> status s = SKIPPED"
    proof (cases "status s")
      case READY
      then show ?thesis using iq q so by (simp add: inv_queue_def)
    next
      case RUNNING
      then show ?thesis using settled so by (simp add: inv_settled_def)
    next
      case SUCCESS
      then show ?thesis using d(2) so by simp
    next
      case FAILED
      then show ?thesis using nf[of d] so e by auto
    qed simp_all
    then show ?case
    proof
      assume "status s = PENDING"
      then obtain d' where "(d, d') \<in> (dep_rel w)\<^sup>+" "status_of e d' = Some SKIPPED" "deps_success e d'"
        using 1(1)[of d] e so by auto
      then show ?thesis using e by (meson trancl_into_trancl2)
    next
      assume "status s = SKIPPED"
      then have sd: "status_of e d = Some SKIPPED" using so by simp
      then consider "deps_success e d"
        | f where "status_of e f = Some FAILED" "(d, f) \<in> (dep_rel w)\<^sup>+"
        using sk rel unfolding inv_skipped_def by auto
      then show ?thesis
      proof cases
        case 1
        then show ?thesis using e sd by blast
      next
        case 2
        then have "(k, f) \<in> (dep_rel w)\<^sup>+" using e by (meson trancl_into_trancl2)
        then show ?thesis using nf 2 by blast
      qed
    qed
  qed
qed

lemma final_statuses:
  assumes inv: "engine_inv w e" and q: "ready_queue e = []"
  shows "status_of e k \<in> {None, Some SUCCESS, Some FAILED, Some SKIPPED, Some PENDING}"
proof (cases "status_of e k")
  case None
  then show ?thesis by simp
next
  case (Some st)
  have "st \<noteq> READY"
    using inv q Some by (auto simp: engine_inv_def mid_inv_def inv_queue_def)
  moreover have "st \<noteq> RUNNING"
    using inv Some by (auto simp: engine_inv_def inv_settled_def)
  ultimately show ?thesis using Some by (cases st) auto
qed

text \<open>
  Claim C7, as amended. Take a well-formed, acyclic workflow handed over by the parser,
  a level dictionary that has every step, retry policies that \<open>int\<close> accepts, and a
  command runner that raises nothing but \<open>CalledProcessError\<close>. The sequential run then
  ends without an exception, whatever commands fail. At the end the queue is empty and
  every step is \<open>SUCCESS\<close>, \<open>FAILED\<close>, \<open>SKIPPED\<close> or \<open>PENDING\<close>. Every descendant of a
  \<open>FAILED\<close> step is \<open>SKIPPED\<close>. A step that is still \<open>PENDING\<close> has an ancestor that is
  \<open>SKIPPED\<close> although all its own dependencies are \<open>SUCCESS\<close>, that is, an ancestor
  skipped by its condition.
\<close>

theorem drain_to_exhaustion:
  assumes "wf_workflow w" and "fresh w" and "acyclic (dep_rel w)"
    and "strategy_ok strat w" and "retry_ok w" and "runner_ok run"
  shows "\<exists>e'. execute run strat w = Some (Inr e') \<and> ready_queue e' = [] \<and>
     (\<forall>k. status_of e' k \<in> {None, Some SUCCESS, Some FAILED, Some SKIPPED, Some PENDING}) \<and>
     (\<forall>f d. status_of e' f = Some FAILED \<longrightarrow> (d, f) \<in> (dep_rel w)\<^sup>+
            \<longrightarrow> status_of e' d = Some SKIPPED) \<and>
     (\<forall>k. status_of e' k = Some PENDING \<longrightarrow>
          (\<exists>d. (k, d) \<in> (dep_rel w)\<^sup>+ \<and> status_of e' d = Some SKIPPED \<and> deps_success e' d))"
proof -
  obtain e' where x: "execute run strat w = Some (Inr e')"
    using execute_total[OF assms(1,2,4,5,6)] by blast
  note f = execute_inv_final[OF assms(1,2) x]
  have m: "mid_inv w e'" using f by (simp add: engine_inv_def)
  have "inv_cascade e'" using m by (simp add: mid_inv_def)
  then have c: "\<forall>f d. status_of e' f = Some FAILED \<longrightarrow> (d, f) \<in> (dep_rel w)\<^sup>+
            \<longrightarrow> status_of e' d = Some SKIPPED"
    unfolding inv_cascade_def mid_inv_dep_rel[OF m] .
  show ?thesis
    using x f c final_statuses[OF f] pending_has_skipped_ancestor[OF f assms(3)] by blast
qed

text \<open>
  Claim C7 as stated fails: in the chain \<open>A\<close>, \<open>B\<close>, \<open>C\<close> every command succeeds, \<open>B\<close> is
  skipped by its condition, and the run ends with \<open>C\<close> still \<open>PENDING\<close>.
\<close>

theorem drain_pending_counterexample:
  "validate_workflow 1000 chain_workflow = Inr True \<and>
   execute ok_run None chain_workflow = Some (Inr chain_final) \<and>
   status_of chain_final ''C'' = Some PENDING \<and>
   status_of chain_final ''A'' = Some SUCCESS \<and>
   status_of chain_final ''B'' = Some SKIPPED"
  by code_simp

lemma chain_acyclic: "acyclic (dep_rel chain_workflow)"
proof (rule acyclicI_order[where f = "\<lambda>x. if x = ''A'' then 0 else if x = ''B'' then 1 else (2::nat)"])
  fix a b
  assume "(a, b) \<in> dep_rel chain_workflow"
  then show "(if b = ''A'' then 0 else if b = ''B'' then 1 else (2::nat))
               < (if a = ''A'' then 0 else if a = ''B'' then 1 else 2)"
    by (auto simp: dep_rel_def deps_map_def chain_steps new_step_def split: if_splits)
qed

lemma ex_acyclic: "acyclic (dep_rel ex_workflow)"
proof (rule acyclicI_order[where f = "\<lambda>x. if x = ''A'' then 0 else if x = ''B'' then 1
                                        else if x = ''C'' then 1 else (2::nat)"])
  fix a b
  assume "(a, b) \<in> dep_rel ex_workflow"
  then show "(if b = ''A'' then 0 else if b = ''B'' then 1 else if b = ''C'' then 1 else (2::nat))
               < (if a = ''A'' then 0 else if a = ''B'' then 1 else if a = ''C'' then 1 else 2)"
    by (auto simp: dep_rel_def deps_map_def ex_steps new_step_def split: if_splits)
qed

lemma ok_run_ok: "runner_ok ok_run"
  by (simp add: runner_ok_def ok_run_def)

lemma ex_run_ok: "runner_ok ex_run"
  by (simp add: runner_ok_def ex_run_def)

text \<open>
  The amended claim on the two examples. In the chain every command succeeds and \<open>C\<close>
  ends \<open>PENDING\<close> below \<open>B\<close>, which its condition skipped. In the first example the
  command of \<open>B\<close> fails three times, \<open>B\<close> ends \<open>FAILED\<close> and its dependent \<open>D\<close> \<open>SKIPPED\<close>.
\<close>

theorem drain_to_exhaustion_witness:
  "wf_workflow chain_workflow \<and> fresh chain_workflow \<and> acyclic (dep_rel chain_workflow) \<and>
   strategy_ok None chain_workflow \<and> retry_ok chain_workflow \<and> runner_ok ok_run \<and>
   execute ok_run None chain_workflow = Some (Inr chain_final) \<and> ready_queue chain_final = [] \<and>
   status_of chain_final ''C'' = Some PENDING \<and>
   (\<exists>d. (''C'', d) \<in> (dep_rel chain_workflow)\<^sup>+ \<and> status_of chain_final d = Some SKIPPED \<and>
        deps_success chain_final d) \<and>
   wf_workflow ex_workflow \<and> fresh ex_workflow \<and> acyclic (dep_rel ex_workflow) \<and>
   strategy_ok None ex_workflow \<and> retry_ok ex_workflow \<and> runner_ok ex_run \<and>
   execute ex_run None ex_workflow = Some (Inr ex_final) \<and>
   status_of ex_final ''B'' = Some FAILED \<and> (''D'', ''B'') \<in> (dep_rel ex_workflow)\<^sup>+ \<and>
   status_of ex_final ''D'' = Some SKIPPED"
proof -
  have s: "strategy_ok None chain_workflow" "strategy_ok None ex_workflow"
    by (simp_all add: strategy_ok_def)
  have p: "status_of chain_final ''C'' = Some PENDING" by code_simp
  have b: "status_of ex_final ''B'' = Some FAILED" by code_simp
  have "(''D'', ''B'') \<in> dep_rel ex_workflow"
    by (simp add: dep_rel_def deps_map_def ex_steps new_step_def)
  then have r: "(''D'', ''B'') \<in> (dep_rel ex_workflow)\<^sup>+" by (rule r_into_trancl)
  from drain_to_exhaustion[OF chain_wf chain_fresh chain_acyclic s(1) chain_retry_ok ok_run_ok]
  have c1: "ready_queue chain_final = [] \<and>
     (\<exists>d. (''C'', d) \<in> (dep_rel chain_workflow)\<^sup>+ \<and> status_of chain_final d = Some SKIPPED \<and>
        deps_success chain_final d)"
    using chain_execute p by auto
  from drain_to_exhaustion[OF ex_wf ex_fresh ex_acyclic s(2) ex_retry_ok ex_run_ok]
  have c2: "status_of ex_final ''D'' = Some SKIPPED"
    using ex_execute b r by auto
  show ?thesis
    using chain_wf chain_fresh chain_acyclic s chain_retry_ok ok_run_ok chain_execute p c1
      ex_wf ex_fresh ex_acyclic ex_retry_ok ex_run_ok ex_execute b r c2 by blast
qed

section \<open>Retries\<close>

lemma execute_inv_log:
  assumes "wf_workflow w" and "fresh w" and "execute run strat w = Some (Inr e')"
  shows "inv_log run e'"
  using reachable_inv_log[OF assms(1,2)] execute_reachable(1)[OF assms(3)] by blast

lemma retry_execute: "execute third_run None retry_workflow = Some (Inr retry_final)"
  by code_simp

lemma retry_wf: "wf_workflow retry_workflow"
  unfolding wf_workflow_def
  by (auto simp: retry_workflow_def add_step_def new_workflow_def new_step_def deps_map_def)

lemma retry_fresh: "fresh retry_workflow"
  by (simp add: fresh_def retry_workflow_def add_step_def new_workflow_def new_step_def)

lemma execute_inv_dispatched:
  assumes "wf_workflow w" and "fresh w" and "execute run strat w = Some (Inr e')"
  shows "inv_dispatched e'"
  using reachable_inv_dispatched[OF assms(1,2)] execute_reachable(1)[OF assms(3)] by blast

lemma always_failing_ends_failed:
  assumes wf: "wf_workflow w" and fr: "fresh w" and x: "execute run strat w = Some (Inr e')"
    and g: "get_step e' k = Some s'" and nt: "\<not> truthy (condition s')"
    and af: "\<forall>n. run n (command s') = Some False"
    and lg: "k \<in> set (execution_order e')"
  shows "status s' = FAILED"
proof -
  note f = execute_inv_final[OF wf fr x]
  have il: "inv_log run e'" using execute_inv_log[OF wf fr x] .
  have id: "inv_dispatched e'" using execute_inv_dispatched[OF wf fr x] .
  have m: "mid_inv w e'" and st: "inv_settled e'" using f(1) by (simp_all add: engine_inv_def)
  have ds: "deps_success e' k" using id lg by (simp add: inv_dispatched_def)
  have so: "status_of e' k = Some (status s')" using g by (simp add: status_of_def)
  have "attempts run (execution_order e') k (command s') True = 0"
    using af by (simp add: attempts_def)
  moreover have "attempts run (execution_order e') k (command s') True
                   = (if status s' = SUCCESS then 1 else 0)"
    using il g unfolding inv_log_def by (auto dest!: spec[of _ k])
  ultimately have n1: "status s' \<noteq> SUCCESS" by auto
  have n2: "status s' \<noteq> PENDING" "status s' \<noteq> RUNNING"
    using st so ds by (auto simp: inv_settled_def)
  have n3: "status s' \<noteq> READY"
    using m f(2) so by (auto simp: mid_inv_def inv_queue_def)
  have n4: "status s' \<noteq> SKIPPED"
  proof
    assume "status s' = SKIPPED"
    then obtain d where d: "d \<in> set (dependencies s')"
      "status_of e' d = Some FAILED \<or> status_of e' d = Some SKIPPED"
      using id g nt unfolding inv_dispatched_def by blast
    have "deps_map (workflow e') k = dependencies s'"
      using g by (simp add: deps_map_def get_step_def)
    then have "status_of e' d = Some SUCCESS" using ds d(1) by (simp add: deps_success_iff)
    then show False using d(2) by auto
  qed
  show ?thesis using n1 n2 n3 n4 by (cases "status s'") auto
qed

text \<open>
  Claim C3, as amended. Every dispatch appends one entry to the log. A failed attempt
  of a step with policy \<open>retry:N\<close> and fewer than \<open>N\<close> retries so far increments the retry
  count and puts the step back to \<open>PENDING\<close>; the step is not \<open>FAILED\<close>, so the loop does
  not start the cascade. In a finished run, a step with policy \<open>retry:N\<close> that ended
  \<open>FAILED\<close> was dispatched exactly \<open>N + 1\<close> times, every time failing; a step with an
  attempt that succeeded ended \<open>SUCCESS\<close>, and one that ended \<open>SUCCESS\<close> has a retry count
  equal to the number of its failed attempts, at most \<open>N\<close>, and one attempt more in the
  log. A step whose command always fails does not end \<open>SUCCESS\<close>; if it has no condition
  and was dispatched at all, it ended \<open>FAILED\<close> after exactly \<open>N + 1\<close> dispatches.
\<close>

theorem retry_semantics:
  "(get_step e k = Some s \<and> max_retries_of s = Some (int N) \<and> retry_count s < N \<and>
    run (length (execution_order e)) (command s) = Some False \<and> execute_step run k e = Inr (b, e4)
    \<longrightarrow> \<not> b \<and> execution_order e4 = execution_order e @ [k] \<and>
        get_step e4 k = Some (s\<lparr>retry_count := retry_count s + 1, status := PENDING\<rparr>) \<and>
        status_of e4 k \<noteq> Some FAILED)
   \<and> (wf_workflow w \<and> fresh w \<and> execute run strat w = Some (Inr e') \<and>
      get_step e' k = Some s' \<and> max_retries_of s' = Some (int N)
      \<longrightarrow> (status s' = FAILED \<longrightarrow>
             count_list (execution_order e') k = N + 1 \<and>
             attempts run (execution_order e') k (command s') False = N + 1 \<and>
             retry_count s' = N)
        \<and> (0 < attempts run (execution_order e') k (command s') True \<longrightarrow> status s' = SUCCESS)
        \<and> (status s' = SUCCESS \<longrightarrow>
             retry_count s' \<le> N \<and>
             attempts run (execution_order e') k (command s') False = retry_count s' \<and>
             count_list (execution_order e') k = retry_count s' + 1)
        \<and> ((\<forall>n. run n (command s') = Some False) \<longrightarrow> status s' \<noteq> SUCCESS)
        \<and> ((\<forall>n. run n (command s') = Some False) \<and> \<not> truthy (condition s') \<and>
            k \<in> set (execution_order e')
            \<longrightarrow> status s' = FAILED \<and> count_list (execution_order e') k = N + 1))"
proof (intro conjI impI)
  assume a: "get_step e k = Some s \<and> max_retries_of s = Some (int N) \<and> retry_count s < N \<and>
    run (length (execution_order e)) (command s) = Some False \<and> execute_step run k e = Inr (b, e4)"
  then have x: "execute_step run k e = Inr (b, e4)" by simp
  from x obtain s0 where s0: "get_step e k = Some s0"
    and lg: "execution_order e4 = execution_order e @ [k]"
    and b: "run (length (execution_order e)) (command s0) = Some b"
    and f: "\<not> b \<Longrightarrow>
           (case max_retries_of s0 of
              Some m \<Rightarrow>
                if int (retry_count s0) < m
                then get_step e4 k = Some (s0\<lparr>retry_count := retry_count s0 + 1, status := PENDING\<rparr>)
                else get_step e4 k = Some (s0\<lparr>status := FAILED\<rparr>)
            | None \<Rightarrow> get_step e4 k = Some (s0\<lparr>status := FAILED\<rparr>))"
    by (rule execute_step_effect) blast
  have eq: "s0 = s" using s0 a by simp
  have nb: "\<not> b" using b a eq by simp
  then have g: "get_step e4 k = Some (s\<lparr>retry_count := retry_count s + 1, status := PENDING\<rparr>)"
    using f a eq by simp
  show "\<not> b" by (rule nb)
  show "execution_order e4 = execution_order e @ [k]" by (rule lg)
  show "get_step e4 k = Some (s\<lparr>retry_count := retry_count s + 1, status := PENDING\<rparr>)" by (rule g)
  show "status_of e4 k \<noteq> Some FAILED" using g by (simp add: status_of_def)
next
  assume a: "wf_workflow w \<and> fresh w \<and> execute run strat w = Some (Inr e') \<and>
      get_step e' k = Some s' \<and> max_retries_of s' = Some (int N)"
  then have "inv_log run e'" using execute_inv_log by blast
  then have i: "attempts run (execution_order e') k (command s') False
                = retry_count s' + (if status s' = FAILED then 1 else 0)"
    "attempts run (execution_order e') k (command s') True = (if status s' = SUCCESS then 1 else 0)"
    "int (retry_count s') \<le> max 0 (int N)" "status s' = FAILED \<longrightarrow> int N \<le> int (retry_count s')"
    and c: "count_list (execution_order e') k
            = attempts run (execution_order e') k (command s') False
              + attempts run (execution_order e') k (command s') True"
    using a unfolding inv_log_def by (auto dest!: spec[of _ k])
  have fl: "count_list (execution_order e') k = N + 1 \<and>
      attempts run (execution_order e') k (command s') False = N + 1 \<and> retry_count s' = N"
    if "status s' = FAILED"
    using that i c by auto
  {
    assume "status s' = FAILED"
    then show "count_list (execution_order e') k = N + 1"
      and "attempts run (execution_order e') k (command s') False = N + 1"
      and "retry_count s' = N"
      using fl by simp_all
  next
    assume "0 < attempts run (execution_order e') k (command s') True"
    then show "status s' = SUCCESS" using i(2) by (simp split: if_splits)
  next
    assume "status s' = SUCCESS"
    then show "retry_count s' \<le> N"
      and "attempts run (execution_order e') k (command s') False = retry_count s'"
      and "count_list (execution_order e') k = retry_count s' + 1"
      using i c by auto
  next
    assume "\<forall>n. run n (command s') = Some False"
    then have "attempts run (execution_order e') k (command s') True = 0"
      by (simp add: attempts_def)
    then show "status s' \<noteq> SUCCESS" using i(2) by auto
  next
    assume h: "(\<forall>n. run n (command s') = Some False) \<and> \<not> truthy (condition s') \<and>
            k \<in> set (execution_order e')"
    have "status s' = FAILED"
      using always_failing_ends_failed[of w run strat e' k s'] a h by blast
    then show "status s' = FAILED" and "count_list (execution_order e') k = N + 1"
      using fl by simp_all
  }
qed

text \<open>
  The amended claim on two runs. In the first example the command of \<open>B\<close>, with policy
  \<open>retry:2\<close>, always fails: its first failure leaves it \<open>PENDING\<close>, and it ends \<open>FAILED\<close>
  after three dispatches. In the run of \<open>retry_workflow\<close> the command of \<open>A\<close> fails twice
  and then succeeds: \<open>A\<close> ends \<open>SUCCESS\<close> with retry count 2 and three entries in the log.
\<close>

theorem retry_semantics_witness:
  "get_step (new_engine ex_workflow) ''B''
     = Some ((new_step ''B'' ''b'')\<lparr>dependencies := [''A''], failure_strategy := Some ''retry:2''\<rparr>) \<and>
   max_retries_of ((new_step ''B'' ''b'')\<lparr>dependencies := [''A''], failure_strategy := Some ''retry:2''\<rparr>)
     = Some (int 2) \<and>
   ex_run 0 ''b'' = Some False \<and>
   status_of (upd_step ''B'' (\<lambda>s. s\<lparr>retry_count := retry_count s + 1, status := PENDING\<rparr>)
               ((new_engine ex_workflow)\<lparr>execution_order := [''B'']\<rparr>)) ''B'' \<noteq> Some FAILED \<and>
   wf_workflow ex_workflow \<and> fresh ex_workflow \<and>
   execute ex_run None ex_workflow = Some (Inr ex_final) \<and>
   (\<forall>n. ex_run n ''b'' = Some False) \<and> ''B'' \<in> set (execution_order ex_final) \<and>
   get_step ex_final ''B''
     = Some ((new_step ''B'' ''b'')\<lparr>dependencies := [''A''], failure_strategy := Some ''retry:2'',
                                     status := FAILED, retry_count := 2\<rparr>) \<and>
   count_list (execution_order ex_final) ''B'' = 2 + 1 \<and>
   wf_workflow retry_workflow \<and> fresh retry_workflow \<and>
   execute third_run None retry_workflow = Some (Inr retry_final) \<and>
   0 < attempts third_run (execution_order retry_final) ''A'' ''a'' True \<and>
   get_step retry_final ''A''
     = Some ((new_step ''A'' ''a'')\<lparr>failure_strategy := Some ''retry:2'',
                                     status := SUCCESS, retry_count := 2\<rparr>) \<and>
   attempts third_run (execution_order retry_final) ''A'' ''a'' False = 2 \<and>
   count_list (execution_order retry_final) ''A'' = 2 + 1"
proof -
  let ?s = "(new_step ''B'' ''b'')\<lparr>dependencies := [''A''], failure_strategy := Some ''retry:2''\<rparr>"
  let ?e = "new_engine ex_workflow"
  let ?e4 = "upd_step ''B'' (\<lambda>s. s\<lparr>retry_count := retry_count s + 1, status := PENDING\<rparr>)
               (?e\<lparr>execution_order := [''B'']\<rparr>)"
  let ?s' = "(new_step ''B'' ''b'')\<lparr>dependencies := [''A''], failure_strategy := Some ''retry:2'',
                                     status := FAILED, retry_count := 2\<rparr>"
  let ?r = "(new_step ''A'' ''a'')\<lparr>failure_strategy := Some ''retry:2'',
                                     status := SUCCESS, retry_count := 2\<rparr>"
  have h1: "get_step ?e ''B'' = Some ?s" by code_simp
  have h2: "max_retries_of ?s = Some (int 2)" by code_simp
  have h3: "retry_count ?s < 2" by (simp add: new_step_def)
  have h4: "ex_run (length (execution_order ?e)) (command ?s) = Some False" by code_simp
  have h5: "execute_step ex_run ''B'' ?e = Inr (False, ?e4)" by code_simp
  have h6: "get_step ex_final ''B'' = Some ?s'" by code_simp
  have h7: "max_retries_of ?s' = Some (int 2)" by code_simp
  have h8: "\<forall>n. ex_run n (command ?s') = Some False" by (simp add: ex_run_def new_step_def)
  have h8': "\<forall>n. ex_run n ''b'' = Some False" by (simp add: ex_run_def)
  have h9: "ex_run 0 ''b'' = Some False" by code_simp
  have h10: "\<not> truthy (condition ?s')" by (simp add: truthy_def new_step_def)
  have h11: "''B'' \<in> set (execution_order ex_final)" by (simp add: ex_final_def)
  have r1: "get_step retry_final ''A'' = Some ?r" by code_simp
  have r2: "max_retries_of ?r = Some (int 2)" by code_simp
  have r3: "0 < attempts third_run (execution_order retry_final) ''A'' (command ?r) True"
    by code_simp
  have r3': "0 < attempts third_run (execution_order retry_final) ''A'' ''a'' True"
    by code_simp
  have r4: "command ?r = ''a''" "retry_count ?r = 2" by (simp_all add: new_step_def)
  note t = retry_semantics[where e = ?e and k = "''B''" and s = ?s and N = 2 and run = ex_run
      and b = False and ?e4.0 = ?e4 and w = ex_workflow and strat = None and e' = ex_final
      and s' = ?s']
  note u = retry_semantics[where e = ?e and k = "''A''" and s = ?s and N = 2 and run = third_run
      and b = False and ?e4.0 = ?e4 and w = retry_workflow and strat = None and e' = retry_final
      and s' = ?r]
  have c1: "status_of ?e4 ''B'' \<noteq> Some FAILED"
    using t h1 h2 h3 h4 h5 by blast
  have c2: "count_list (execution_order ex_final) ''B'' = 2 + 1"
    using t ex_wf ex_fresh ex_execute h6 h7 h8 h10 h11 by blast
  have c3: "status ?r = SUCCESS"
    using u retry_wf retry_fresh retry_execute r1 r2 r3 by blast
  have c4: "attempts third_run (execution_order retry_final) ''A'' (command ?r) False = retry_count ?r
      \<and> count_list (execution_order retry_final) ''A'' = retry_count ?r + 1"
    using u retry_wf retry_fresh retry_execute r1 r2 c3 by blast
  have c5: "attempts third_run (execution_order retry_final) ''A'' ''a'' False = 2"
    "count_list (execution_order retry_final) ''A'' = 2 + 1"
    using c4 unfolding r4 by simp_all
  show ?thesis
    using h1 h2 h9 c1 ex_wf ex_fresh ex_execute h8' h11 h6 c2
      retry_wf retry_fresh retry_execute r3' r1 c5 by blast
qed

text \<open>
  Claim C3 as stated fails for a step with a condition: \<open>A\<close> has the policy \<open>retry:2\<close> and
  its command always fails, yet it is dispatched once. Its first failure puts it back to
  \<open>PENDING\<close>, the next readiness update evaluates its condition again, now false, and
  the step ends \<open>SKIPPED\<close>.
\<close>

theorem retry_condition_counterexample:
  "execute flip_run None flip_workflow = Some (Inr flip_final) \<and>
   map_option max_retries_of (get_step flip_final ''A'') = Some (Some 2) \<and>
   flip_run 0 ''a'' = Some False \<and> flip_run 1 ''a'' = Some False \<and>
   count_list (execution_order flip_final) ''A'' = 1 \<and>
   status_of flip_final ''A'' = Some SKIPPED"
  by code_simp

section \<open>Condition gating\<close>

lemma ex_after_A_reachable: "reachable ex_run None ex_workflow ex_after_A"
proof -
  let ?e0 = "projr (update_ready_queue (new_engine ex_workflow))"
  have "update_ready_queue (new_engine ex_workflow) = Inr ?e0" by code_simp
  then have r: "reachable ex_run None ex_workflow ?e0" by (rule reachable.start)
  have q: "ready_queue ?e0 \<noteq> []" by code_simp
  have "sequential_body ex_run None ?e0 = Inr (True, ex_after_A)" by code_simp
  with r q show ?thesis by (rule reachable.pass)
qed

lemma skipped_pass:
  assumes inv: "engine_inv w e" and sk: "status_of e k = Some SKIPPED"
    and b: "sequential_body run strat e = Inr (True, e2)"
  shows "status_of e2 k = Some SKIPPED \<and> k \<notin> set (ready_queue e2) \<and>
         count_list (execution_order e2) k = count_list (execution_order e) k"
proof -
  from sequential_body_dispatch[OF inv b] obtain k0 where
    lg: "execution_order e2 = execution_order e @ [k0]"
    and st: "\<forall>x. status_of e x \<in> {Some SUCCESS, Some FAILED, Some SKIPPED}
              \<longrightarrow> x \<noteq> k0 \<and> get_step e2 x = get_step e x"
    by blast
  have kk: "k0 \<noteq> k" and gg: "get_step e2 k = get_step e k" using st sk by auto
  have s2: "status_of e2 k = Some SKIPPED" using gg sk by (simp add: status_of_def)
  have "engine_inv w e2" using inv b by (rule sequential_body_inv)
  then have "inv_queue e2" by (simp add: engine_inv_def mid_inv_def)
  then have "k \<notin> set (ready_queue e2)" using s2 by (simp add: inv_queue_def)
  then show ?thesis using s2 lg kk by simp
qed

lemma skipped_stays:
  assumes wf: "wf_workflow w" and fr: "fresh w" and r: "reachable run strat w e"
    and sk: "status_of e k = Some SKIPPED"
    and x: "execute_sequential run strat e = Some (Inr e')"
  shows "status_of e' k = Some SKIPPED \<and> k \<notin> set (ready_queue e') \<and>
         count_list (execution_order e') k = count_list (execution_order e) k"
proof -
  let ?I = "\<lambda>e''. reachable run strat w e'' \<and> status_of e'' k = Some SKIPPED \<and>
              count_list (execution_order e'') k = count_list (execution_order e) k"
  have "?I e' \<and> ready_queue e' = []"
  proof (rule execute_sequential_invariant[where I = ?I, OF x])
    show "?I e" using r sk by simp
  next
    fix e1 e2
    assume i: "?I e1" and ne: "ready_queue e1 \<noteq> []"
      and b: "sequential_body run strat e1 = Inr (True, e2)"
    have inv: "engine_inv w e1" using reachable_inv[OF wf fr] i by blast
    have "status_of e2 k = Some SKIPPED"
      and "count_list (execution_order e2) k = count_list (execution_order e) k"
      using skipped_pass[OF inv _ b, of k] i by simp_all
    moreover have "reachable run strat w e2"
      using i ne b reachable.pass by blast
    ultimately show "?I e2" by simp
  qed
  then show ?thesis by simp
qed

text \<open>
  Claim C5, as amended. When the readiness update comes to a \<open>PENDING\<close> step whose
  dependencies are all \<open>SUCCESS\<close> and whose condition evaluates to false, the step
  becomes \<open>SKIPPED\<close> and the ready queue is left as it is. From a state of a run in which
  a step is \<open>SKIPPED\<close>, every pass of the loop and the rest of the run as a whole leave
  it \<open>SKIPPED\<close>, outside the queue, and add no dispatch of it to the log. A step that
  ends \<open>SKIPPED\<close> with retry count 0 was never dispatched.
\<close>

theorem condition_gating:
  "(wf_workflow w \<and> same_graph w (workflow e) \<and> get_step e k = Some s \<and> status s = PENDING \<and>
    deps_success e k \<and> \<not> evaluate_condition (workflow e) (condition s)
    \<longrightarrow> update_ready_step k e = Inr (set_status k SKIPPED e) \<and>
        status_of (set_status k SKIPPED e) k = Some SKIPPED \<and>
        ready_queue (set_status k SKIPPED e) = ready_queue e)
   \<and> (wf_workflow w \<and> fresh w \<and> reachable run strat w e1 \<and> status_of e1 k = Some SKIPPED \<and>
      sequential_body run strat e1 = Inr (True, e2)
      \<longrightarrow> status_of e2 k = Some SKIPPED \<and> k \<notin> set (ready_queue e2) \<and>
          count_list (execution_order e2) k = count_list (execution_order e1) k)
   \<and> (wf_workflow w \<and> fresh w \<and> reachable run strat w e1 \<and> status_of e1 k = Some SKIPPED \<and>
      execute_sequential run strat e1 = Some (Inr e')
      \<longrightarrow> status_of e' k = Some SKIPPED \<and> k \<notin> set (ready_queue e') \<and>
          count_list (execution_order e') k = count_list (execution_order e1) k)
   \<and> (wf_workflow w \<and> fresh w \<and> execute run strat w = Some (Inr e') \<and>
      get_step e' k = Some s' \<and> status s' = SKIPPED \<and> retry_count s' = 0
      \<longrightarrow> k \<notin> set (execution_order e'))"
proof (intro conjI impI)
  assume a: "wf_workflow w \<and> same_graph w (workflow e) \<and> get_step e k = Some s \<and> status s = PENDING \<and>
    deps_success e k \<and> \<not> evaluate_condition (workflow e) (condition s)"
  then show "update_ready_step k e = Inr (set_status k SKIPPED e)"
    using update_ready_step_effect[of w e k s] by simp
  have "status_of e k = Some PENDING" using a by (simp add: status_of_def)
  then show "status_of (set_status k SKIPPED e) k = Some SKIPPED"
    by (simp add: status_of_set_status)
  show "ready_queue (set_status k SKIPPED e) = ready_queue e"
    by (simp add: set_status_def upd_step_def)
next
  assume a: "wf_workflow w \<and> fresh w \<and> reachable run strat w e1 \<and> status_of e1 k = Some SKIPPED \<and>
      sequential_body run strat e1 = Inr (True, e2)"
  then have "engine_inv w e1" using reachable_inv by blast
  then have "status_of e2 k = Some SKIPPED \<and> k \<notin> set (ready_queue e2) \<and>
         count_list (execution_order e2) k = count_list (execution_order e1) k"
    using skipped_pass[of w e1 k run strat e2] a by blast
  then show "status_of e2 k = Some SKIPPED" and "k \<notin> set (ready_queue e2)"
    and "count_list (execution_order e2) k = count_list (execution_order e1) k"
    by simp_all
next
  assume a: "wf_workflow w \<and> fresh w \<and> reachable run strat w e1 \<and> status_of e1 k = Some SKIPPED \<and>
      execute_sequential run strat e1 = Some (Inr e')"
  then have "status_of e' k = Some SKIPPED \<and> k \<notin> set (ready_queue e') \<and>
         count_list (execution_order e') k = count_list (execution_order e1) k"
    using skipped_stays[of w run strat e1 k e'] by blast
  then show "status_of e' k = Some SKIPPED" and "k \<notin> set (ready_queue e')"
    and "count_list (execution_order e') k = count_list (execution_order e1) k"
    by simp_all
next
  assume a: "wf_workflow w \<and> fresh w \<and> execute run strat w = Some (Inr e') \<and>
      get_step e' k = Some s' \<and> status s' = SKIPPED \<and> retry_count s' = 0"
  then have "inv_log run e'" using execute_inv_log by blast
  then have "count_list (execution_order e') k = 0"
    using a unfolding inv_log_def by (auto dest!: spec[of _ k])
  then show "k \<notin> set (execution_order e')"
    by (simp add: count_list_0_iff)
qed

text \<open>
  Claim C5 as stated fails for a step that is retried. In the run of \<open>gate_workflow\<close> the
  step \<open>A\<close> is enqueued and dispatched while \<open>B\<close> is \<open>READY\<close>; its command fails and the
  retry policy puts it back to \<open>PENDING\<close>. At the next readiness update its dependency
  \<open>Z\<close> is \<open>SUCCESS\<close> and its condition is false, since \<open>B\<close> is \<open>SUCCESS\<close> by now, so it
  goes from \<open>PENDING\<close> to \<open>SKIPPED\<close>: a step gated by its condition that has been
  dispatched.
\<close>

theorem gating_after_retry_counterexample:
  "execute gate_run None gate_workflow = Some (Inr gate_final) \<and>
   update_ready_queue gate_before = Inr gate_final \<and>
   status_of gate_before ''A'' = Some PENDING \<and> deps_success gate_before ''A'' \<and>
   \<not> evaluate_condition (workflow gate_before) (Some ''status_B == ready'') \<and>
   status_of gate_final ''A'' = Some SKIPPED \<and>
   execution_order gate_final = [''Z'', ''B'', ''A'']"
  by code_simp

text \<open>
  The amended claim on the first example: after \<open>A\<close> has succeeded the update skips
  \<open>C\<close>, whose condition \<open>status_B == failed\<close> is false; \<open>C\<close> is still \<open>SKIPPED\<close> at the
  end of the run and is not in the log.
\<close>

theorem condition_gating_witness:
  "wf_workflow ex_workflow \<and> fresh ex_workflow \<and>
   same_graph ex_workflow (workflow (set_status ''A'' SUCCESS (new_engine ex_workflow))) \<and>
   get_step (set_status ''A'' SUCCESS (new_engine ex_workflow)) ''C''
     = Some ((new_step ''C'' ''c'')\<lparr>condition := Some ''status_B == failed'', dependencies := [''A'']\<rparr>) \<and>
   deps_success (set_status ''A'' SUCCESS (new_engine ex_workflow)) ''C'' \<and>
   \<not> evaluate_condition (workflow (set_status ''A'' SUCCESS (new_engine ex_workflow)))
       (Some ''status_B == failed'') \<and>
   update_ready_step ''C'' (set_status ''A'' SUCCESS (new_engine ex_workflow))
     = Inr (set_status ''C'' SKIPPED (set_status ''A'' SUCCESS (new_engine ex_workflow))) \<and>
   reachable ex_run None ex_workflow ex_after_A \<and> status_of ex_after_A ''C'' = Some SKIPPED \<and>
   sequential_body ex_run None ex_after_A
     = Inr (True, snd (projr (sequential_body ex_run None ex_after_A))) \<and>
   status_of (snd (projr (sequential_body ex_run None ex_after_A))) ''C'' = Some SKIPPED \<and>
   execute_sequential ex_run None ex_after_A = Some (Inr ex_final) \<and>
   status_of ex_final ''C'' = Some SKIPPED \<and>
   count_list (execution_order ex_final) ''C'' = count_list (execution_order ex_after_A) ''C'' \<and>
   execute ex_run None ex_workflow = Some (Inr ex_final) \<and>
   ''C'' \<notin> set (execution_order ex_final)"
proof -
  let ?e = "set_status ''A'' SUCCESS (new_engine ex_workflow)"
  let ?c = "(new_step ''C'' ''c'')\<lparr>condition := Some ''status_B == failed'', dependencies := [''A'']\<rparr>"
  let ?c' = "(new_step ''C'' ''c'')\<lparr>dependencies := [''A''],
                      condition := Some ''status_B == failed'', status := SKIPPED\<rparr>"
  have g: "same_graph ex_workflow (workflow ?e)"
    using same_graph_set_status[of "new_engine ex_workflow" "''A''" SUCCESS]
    by (simp add: new_engine_def)
  have h1: "get_step ?e ''C'' = Some ?c" by code_simp
  have h2: "status ?c = PENDING" "condition ?c = Some ''status_B == failed''"
    by (simp_all add: new_step_def)
  have h3: "deps_success ?e ''C''" by code_simp
  have h4: "\<not> evaluate_condition (workflow ?e) (Some ''status_B == failed'')" by code_simp
  have h5: "status_of ex_after_A ''C'' = Some SKIPPED" by code_simp
  have h6: "execute_sequential ex_run None ex_after_A = Some (Inr ex_final)" by code_simp
  have h7: "get_step ex_final ''C'' = Some ?c'" by code_simp
  have h8: "status ?c' = SKIPPED" "retry_count ?c' = 0" by (simp_all add: new_step_def)
  let ?e2 = "snd (projr (sequential_body ex_run None ex_after_A))"
  have h9: "sequential_body ex_run None ex_after_A = Inr (True, ?e2)" by code_simp
  note t = condition_gating[where w = ex_workflow and run = ex_run and strat = None
      and e = ?e and k = "''C''" and s = ?c and ?e1.0 = ex_after_A and ?e2.0 = ?e2
      and e' = ex_final and s' = ?c']
  have c0: "status_of ?e2 ''C'' = Some SKIPPED"
    using t ex_wf ex_fresh ex_after_A_reachable h5 h9 by blast
  have c1: "update_ready_step ''C'' ?e = Inr (set_status ''C'' SKIPPED ?e)"
    using t ex_wf g h1 h2 h3 h4 by simp
  have c2: "status_of ex_final ''C'' = Some SKIPPED \<and>
      count_list (execution_order ex_final) ''C'' = count_list (execution_order ex_after_A) ''C''"
    using t ex_wf ex_fresh ex_after_A_reachable h5 h6 by blast
  have c3: "''C'' \<notin> set (execution_order ex_final)"
    using t ex_wf ex_fresh ex_execute h7 h8 by blast
  show ?thesis
    using ex_wf ex_fresh g h1 h3 h4 c1 ex_after_A_reachable h5 h9 c0 h6 c2 ex_execute c3 by blast
qed

section \<open>Skip cascade\<close>







section \<open>Strategy selection\<close>

lemma min_by_first:
  "min_by (b, kb) r = x \<Longrightarrow>
     (x = b \<and> (\<forall>p\<in>set r. kb \<le> snd p)) \<or>
     (\<exists>pre kx post. r = pre @ (x, kx) # post \<and> kx < kb \<and>
          (\<forall>p\<in>set pre. kx < snd p) \<and> (\<forall>p\<in>set post. kx \<le> snd p))"
proof (induction r arbitrary: b kb)
  case Nil
  then show ?case by simp
next
  case (Cons p r)
  obtain y ky where p: "p = (y, ky)" by (cases p)
  show ?case
  proof (cases "ky < kb")
    case True
    then have "min_by (y, ky) r = x" using Cons.prems p by simp
    from Cons.IH[OF this] show ?thesis
    proof
      assume "x = y \<and> (\<forall>p\<in>set r. ky \<le> snd p)"
      then have "p # r = [] @ (x, ky) # r \<and> ky < kb \<and>
          (\<forall>p\<in>set []. ky < snd p) \<and> (\<forall>p\<in>set r. ky \<le> snd p)"
        using p True by simp
      then show ?thesis by blast
    next
      assume "\<exists>pre kx post. r = pre @ (x, kx) # post \<and> kx < ky \<and>
          (\<forall>p\<in>set pre. kx < snd p) \<and> (\<forall>p\<in>set post. kx \<le> snd p)"
      then obtain pre kx post where h: "r = pre @ (x, kx) # post" "kx < ky"
        "\<forall>p\<in>set pre. kx < snd p" "\<forall>p\<in>set post. kx \<le> snd p" by blast
      then have "p # r = (p # pre) @ (x, kx) # post \<and> kx < kb \<and>
          (\<forall>p\<in>set (p # pre). kx < snd p) \<and> (\<forall>p\<in>set post. kx \<le> snd p)"
        using p True by simp
      then show ?thesis by blast
    qed
  next
    case False
    then have "min_by (b, kb) r = x" using Cons.prems p by simp
    from Cons.IH[OF this] show ?thesis
    proof
      assume "x = b \<and> (\<forall>p\<in>set r. kb \<le> snd p)"
      then show ?thesis using p False by simp
    next
      assume "\<exists>pre kx post. r = pre @ (x, kx) # post \<and> kx < kb \<and>
          (\<forall>p\<in>set pre. kx < snd p) \<and> (\<forall>p\<in>set post. kx \<le> snd p)"
      then obtain pre kx post where h: "r = pre @ (x, kx) # post" "kx < kb"
        "\<forall>p\<in>set pre. kx < snd p" "\<forall>p\<in>set post. kx \<le> snd p" by blast
      then have "p # r = (p # pre) @ (x, kx) # post \<and> kx < kb \<and>
          (\<forall>p\<in>set (p # pre). kx < snd p) \<and> (\<forall>p\<in>set post. kx \<le> snd p)"
        using p False by simp
      then show ?thesis by blast
    qed
  qed
qed

lemma max_by_first:
  "max_by (b, kb) r = x \<Longrightarrow>
     (x = b \<and> (\<forall>p\<in>set r. snd p \<le> kb)) \<or>
     (\<exists>pre kx post. r = pre @ (x, kx) # post \<and> kb < kx \<and>
          (\<forall>p\<in>set pre. snd p < kx) \<and> (\<forall>p\<in>set post. snd p \<le> kx))"
proof (induction r arbitrary: b kb)
  case Nil
  then show ?case by simp
next
  case (Cons p r)
  obtain y ky where p: "p = (y, ky)" by (cases p)
  show ?case
  proof (cases "kb < ky")
    case True
    then have "max_by (y, ky) r = x" using Cons.prems p by simp
    from Cons.IH[OF this] show ?thesis
    proof
      assume "x = y \<and> (\<forall>p\<in>set r. snd p \<le> ky)"
      then have "p # r = [] @ (x, ky) # r \<and> kb < ky \<and>
          (\<forall>p\<in>set []. snd p < ky) \<and> (\<forall>p\<in>set r. snd p \<le> ky)"
        using p True by simp
      then show ?thesis by blast
    next
      assume "\<exists>pre kx post. r = pre @ (x, kx) # post \<and> ky < kx \<and>
          (\<forall>p\<in>set pre. snd p < kx) \<and> (\<forall>p\<in>set post. snd p \<le> kx)"
      then obtain pre kx post where h: "r = pre @ (x, kx) # post" "ky < kx"
        "\<forall>p\<in>set pre. snd p < kx" "\<forall>p\<in>set post. snd p \<le> kx" by blast
      then have "p # r = (p # pre) @ (x, kx) # post \<and> kb < kx \<and>
          (\<forall>p\<in>set (p # pre). snd p < kx) \<and> (\<forall>p\<in>set post. snd p \<le> kx)"
        using p True by simp
      then show ?thesis by blast
    qed
  next
    case False
    then have "max_by (b, kb) r = x" using Cons.prems p by simp
    from Cons.IH[OF this] show ?thesis
    proof
      assume "x = b \<and> (\<forall>p\<in>set r. snd p \<le> kb)"
      then show ?thesis using p False by simp
    next
      assume "\<exists>pre kx post. r = pre @ (x, kx) # post \<and> kb < kx \<and>
          (\<forall>p\<in>set pre. snd p < kx) \<and> (\<forall>p\<in>set post. snd p \<le> kx)"
      then obtain pre kx post where h: "r = pre @ (x, kx) # post" "kb < kx"
        "\<forall>p\<in>set pre. snd p < kx" "\<forall>p\<in>set post. snd p \<le> kx" by blast
      then have "p # r = (p # pre) @ (x, kx) # post \<and> kb < kx \<and>
          (\<forall>p\<in>set (p # pre). snd p < kx) \<and> (\<forall>p\<in>set post. snd p \<le> kx)"
        using p False by simp
      then show ?thesis by blast
    qed
  qed
qed

lemma level_keys_map:
  "\<forall>k\<in>set ks. map_of lv k \<noteq> None \<Longrightarrow>
     level_keys lv ks = Inr (map (\<lambda>k. (k, the (map_of lv k))) ks)"
  by (induction ks) auto

text \<open>The first element of least key, and of greatest key, of a list of steps.\<close>

lemma first_min:
  "\<exists>pre x post. b # r = pre @ x # post \<and>
           min_by (b, f b) (map (\<lambda>k. (k, f k)) r) = x \<and>
           (\<forall>y\<in>set pre. f x < f y) \<and> (\<forall>y\<in>set post. f x \<le> f y)"
proof -
  let ?g = "\<lambda>k. (k, f k)"
  let ?x = "min_by (b, f b) (map ?g r)"
  from min_by_first[of b "f b" "map ?g r" ?x]
  have "(?x = b \<and> (\<forall>p\<in>set (map ?g r). f b \<le> snd p)) \<or>
     (\<exists>pre kx post. map ?g r = pre @ (?x, kx) # post \<and> kx < f b \<and>
          (\<forall>p\<in>set pre. kx < snd p) \<and> (\<forall>p\<in>set post. kx \<le> snd p))"
    by simp
  then show ?thesis
  proof
    assume a: "?x = b \<and> (\<forall>p\<in>set (map ?g r). f b \<le> snd p)"
    have "b # r = [] @ ?x # r \<and> ?x = ?x \<and> (\<forall>y\<in>set []. f ?x < f y) \<and> (\<forall>y\<in>set r. f ?x \<le> f y)"
      using a by simp
    then show ?thesis by (intro exI)
  next
    assume "\<exists>pre kx post. map ?g r = pre @ (?x, kx) # post \<and> kx < f b \<and>
          (\<forall>p\<in>set pre. kx < snd p) \<and> (\<forall>p\<in>set post. kx \<le> snd p)"
    then obtain pre kx post where h: "map ?g r = pre @ (?x, kx) # post" "kx < f b"
      "\<forall>p\<in>set pre. kx < snd p" "\<forall>p\<in>set post. kx \<le> snd p" by blast
    from h(1) obtain pr x' po where d: "r = pr @ x' # po" "map ?g pr = pre" "?g x' = (?x, kx)"
      "map ?g po = post"
      by (auto simp: map_eq_append_conv map_eq_Cons_conv)
    have x': "x' = ?x" "kx = f ?x" using d(3) by auto
    have "\<forall>y\<in>set pr. f ?x < f y" using h(3) d(2) x' by auto
    moreover have "\<forall>y\<in>set po. f ?x \<le> f y" using h(4) d(4) x' by auto
    moreover have "f ?x < f b" using h(2) x' by simp
    moreover have "b # r = (b # pr) @ ?x # po" using d(1) x' by simp
    ultimately have "b # r = (b # pr) @ ?x # po \<and> ?x = ?x \<and> (\<forall>y\<in>set (b # pr). f ?x < f y) \<and>
        (\<forall>y\<in>set po. f ?x \<le> f y)"
      by simp
    then show ?thesis by (intro exI)
  qed
qed

lemma first_max:
  "\<exists>pre x post. b # r = pre @ x # post \<and>
           max_by (b, f b) (map (\<lambda>k. (k, f k)) r) = x \<and>
           (\<forall>y\<in>set pre. f y < f x) \<and> (\<forall>y\<in>set post. f y \<le> f x)"
proof -
  let ?g = "\<lambda>k. (k, f k)"
  let ?x = "max_by (b, f b) (map ?g r)"
  from max_by_first[of b "f b" "map ?g r" ?x]
  have "(?x = b \<and> (\<forall>p\<in>set (map ?g r). snd p \<le> f b)) \<or>
     (\<exists>pre kx post. map ?g r = pre @ (?x, kx) # post \<and> f b < kx \<and>
          (\<forall>p\<in>set pre. snd p < kx) \<and> (\<forall>p\<in>set post. snd p \<le> kx))"
    by simp
  then show ?thesis
  proof
    assume a: "?x = b \<and> (\<forall>p\<in>set (map ?g r). snd p \<le> f b)"
    have "b # r = [] @ ?x # r \<and> ?x = ?x \<and> (\<forall>y\<in>set []. f y < f ?x) \<and> (\<forall>y\<in>set r. f y \<le> f ?x)"
      using a by simp
    then show ?thesis by (intro exI)
  next
    assume "\<exists>pre kx post. map ?g r = pre @ (?x, kx) # post \<and> f b < kx \<and>
          (\<forall>p\<in>set pre. snd p < kx) \<and> (\<forall>p\<in>set post. snd p \<le> kx)"
    then obtain pre kx post where h: "map ?g r = pre @ (?x, kx) # post" "f b < kx"
      "\<forall>p\<in>set pre. snd p < kx" "\<forall>p\<in>set post. snd p \<le> kx" by blast
    from h(1) obtain pr x' po where d: "r = pr @ x' # po" "map ?g pr = pre" "?g x' = (?x, kx)"
      "map ?g po = post"
      by (auto simp: map_eq_append_conv map_eq_Cons_conv)
    have x': "x' = ?x" "kx = f ?x" using d(3) by auto
    have "\<forall>y\<in>set pr. f y < f ?x" using h(3) d(2) x' by auto
    moreover have "\<forall>y\<in>set po. f y \<le> f ?x" using h(4) d(4) x' by auto
    moreover have "f b < f ?x" using h(2) x' by simp
    moreover have "b # r = (b # pr) @ ?x # po" using d(1) x' by simp
    ultimately have "b # r = (b # pr) @ ?x # po \<and> ?x = ?x \<and> (\<forall>y\<in>set (b # pr). f y < f ?x) \<and>
        (\<forall>y\<in>set po. f y \<le> f ?x)"
      by simp
    then show ?thesis by (intro exI)
  qed
qed

lemma get_next_steps_first:
  assumes "ready \<noteq> []" and "\<forall>k\<in>set ready. map_of lv k \<noteq> None"
  shows "\<exists>pre x post. ready = pre @ x # post \<and>
           get_next_steps (BreadthFirstStrategy lv) ready = Inr [x] \<and>
           (\<forall>y\<in>set pre. the (map_of lv x) < the (map_of lv y)) \<and>
           (\<forall>y\<in>set post. the (map_of lv x) \<le> the (map_of lv y))"
    and "\<exists>pre x post. ready = pre @ x # post \<and>
           get_next_steps (DepthFirstStrategy lv) ready = Inr [x] \<and>
           (\<forall>y\<in>set pre. the (map_of lv y) < the (map_of lv x)) \<and>
           (\<forall>y\<in>set post. the (map_of lv y) \<le> the (map_of lv x))"
proof -
  obtain b r where br: "ready = b # r" using assms(1) by (cases ready) auto
  let ?f = "\<lambda>k. the (map_of lv k)"
  have lk: "level_keys lv ready = Inr ((b, ?f b) # map (\<lambda>k. (k, ?f k)) r)"
    using level_keys_map[OF assms(2)] br by simp
  have bfs: "get_next_steps (BreadthFirstStrategy lv) ready
              = Inr [min_by (b, ?f b) (map (\<lambda>k. (k, ?f k)) r)]"
    using lk br by simp
  have dfs: "get_next_steps (DepthFirstStrategy lv) ready
              = Inr [max_by (b, ?f b) (map (\<lambda>k. (k, ?f k)) r)]"
    using lk br by simp
  from first_min[of b r ?f] obtain pre x post where
    "b # r = pre @ x # post" "min_by (b, ?f b) (map (\<lambda>k. (k, ?f k)) r) = x"
    "\<forall>y\<in>set pre. ?f x < ?f y" "\<forall>y\<in>set post. ?f x \<le> ?f y" by blast
  then have "ready = pre @ x # post \<and>
           get_next_steps (BreadthFirstStrategy lv) ready = Inr [x] \<and>
           (\<forall>y\<in>set pre. ?f x < ?f y) \<and> (\<forall>y\<in>set post. ?f x \<le> ?f y)"
    using bfs br by simp
  then show "\<exists>pre x post. ready = pre @ x # post \<and>
           get_next_steps (BreadthFirstStrategy lv) ready = Inr [x] \<and>
           (\<forall>y\<in>set pre. the (map_of lv x) < the (map_of lv y)) \<and>
           (\<forall>y\<in>set post. the (map_of lv x) \<le> the (map_of lv y))"
    by (intro exI)
  from first_max[of b r ?f] obtain pre x post where
    "b # r = pre @ x # post" "max_by (b, ?f b) (map (\<lambda>k. (k, ?f k)) r) = x"
    "\<forall>y\<in>set pre. ?f y < ?f x" "\<forall>y\<in>set post. ?f y \<le> ?f x" by blast
  then have "ready = pre @ x # post \<and>
           get_next_steps (DepthFirstStrategy lv) ready = Inr [x] \<and>
           (\<forall>y\<in>set pre. ?f y < ?f x) \<and> (\<forall>y\<in>set post. ?f y \<le> ?f x)"
    using dfs br by simp
  then show "\<exists>pre x post. ready = pre @ x # post \<and>
           get_next_steps (DepthFirstStrategy lv) ready = Inr [x] \<and>
           (\<forall>y\<in>set pre. the (map_of lv y) < the (map_of lv x)) \<and>
           (\<forall>y\<in>set post. the (map_of lv y) \<le> the (map_of lv x))"
    by (intro exI)
qed

lemma get_next_steps_length: "get_next_steps strat ready = Inr xs \<Longrightarrow> length xs \<le> 1"
  by (cases strat) (auto split: if_splits sum.splits list.splits)

section \<open>Levels\<close>

lemma upstream_keys:
  assumes "wf_workflow w" and "k \<in> fst ` set (steps w)"
  shows "upstream w k \<subseteq> fst ` set (steps w)"
proof
  fix d
  assume "d \<in> upstream w k"
  then have "(k, d) \<in> (dep_rel w)\<^sup>*" by (simp add: upstream_def)
  then show "d \<in> fst ` set (steps w)"
  proof (induction rule: rtrancl_induct)
    case base
    then show ?case using assms(2) .
  next
    case (step y z)
    then show ?case using wf_dep_key[OF assms(1)] by blast
  qed
qed

lemma upstream_finite:
  assumes "wf_workflow w" and "k \<in> fst ` set (steps w)"
  shows "finite (upstream w k)"
  using upstream_keys[OF assms] by (rule finite_subset) simp

lemma upstream_card_keys:
  assumes "wf_workflow w" and "k \<in> fst ` set (steps w)"
  shows "card (upstream w k) \<le> length (steps w)"
proof -
  have "card (upstream w k) \<le> card (fst ` set (steps w))"
    using upstream_keys[OF assms] by (intro card_mono) simp_all
  also have "\<dots> \<le> card (set (steps w))" by (rule card_image_le) simp
  also have "\<dots> \<le> length (steps w)" by (rule card_length)
  finally show ?thesis .
qed

lemma upstream_dep:
  assumes wf: "wf_workflow w" and ac: "acyclic (dep_rel w)" and k: "k \<in> fst ` set (steps w)"
    and d: "(k, d) \<in> dep_rel w"
  shows "upstream w d \<subseteq> upstream w k" and "k \<notin> upstream w d"
    and "card (upstream w d) < card (upstream w k)"
proof -
  show s: "upstream w d \<subseteq> upstream w k"
    using d by (auto simp: upstream_def intro: converse_rtrancl_into_rtrancl)
  show n: "k \<notin> upstream w d"
  proof
    assume "k \<in> upstream w d"
    then have "(d, k) \<in> (dep_rel w)\<^sup>*" by (simp add: upstream_def)
    then have "(k, k) \<in> (dep_rel w)\<^sup>+" using d by (meson rtrancl_into_trancl2)
    then show False using ac by (simp add: acyclic_def)
  qed
  have "k \<in> upstream w k" by (simp add: upstream_def)
  then have "upstream w d \<subset> upstream w k" using s n by blast
  then show "card (upstream w d) < card (upstream w k)"
    using upstream_finite[OF wf k] by (rule psubset_card_mono[rotated])
qed

lemma levels_ok_update:
  assumes ok: "levels_ok w lv" and n: "map_of lv sid = None"
    and st: "map_of (steps w) sid = Some st"
    and ds: "\<forall>d\<in>set (dependencies st). map_of lv d \<noteq> None"
    and L: "L = (if dependencies st = [] then 0
                 else 1 + Max ((\<lambda>d. the (map_of lv d)) ` set (dependencies st)))"
  shows "levels_ok w (AList.update sid L lv)"
  unfolding levels_ok_def
proof (intro allI impI)
  fix k l
  let ?lv = "AList.update sid L lv"
  assume a: "map_of ?lv k = Some l"
  have m: "map_of ?lv = (map_of lv)(sid \<mapsto> L)" by (simp add: update_conv')
  have same: "the (map_of ?lv d) = the (map_of lv d)" if "map_of lv d \<noteq> None" for d
    using that n m by (cases "d = sid") auto
  have img: "(\<lambda>d. the (map_of ?lv d)) ` set ds' = (\<lambda>d. the (map_of lv d)) ` set ds'"
    if "\<forall>d\<in>set ds'. map_of lv d \<noteq> None" for ds'
    using same that by (intro image_cong) auto
  have def: "\<forall>d\<in>set ds'. map_of ?lv d \<noteq> None"
    if "\<forall>d\<in>set ds'. map_of lv d \<noteq> None" for ds'
    using that m by auto
  show "\<exists>s. map_of (steps w) k = Some s \<and>
             (\<forall>d\<in>set (dependencies s). map_of ?lv d \<noteq> None) \<and>
             l = (if dependencies s = [] then 0
                  else 1 + Max ((\<lambda>d. the (map_of ?lv d)) ` set (dependencies s)))"
  proof (cases "k = sid")
    case True
    then have l: "l = L" using a m by simp
    have "l = (if dependencies st = [] then 0
                  else 1 + Max ((\<lambda>d. the (map_of ?lv d)) ` set (dependencies st)))"
      unfolding img[OF ds] l by (rule L)
    then show ?thesis using True st def[OF ds] by blast
  next
    case False
    then have "map_of lv k = Some l" using a m by simp
    then obtain s where s: "map_of (steps w) k = Some s"
      "\<forall>d\<in>set (dependencies s). map_of lv d \<noteq> None"
      "l = (if dependencies s = [] then 0
            else 1 + Max ((\<lambda>d. the (map_of lv d)) ` set (dependencies s)))"
      using ok unfolding levels_ok_def by blast
    have "l = (if dependencies s = [] then 0
                  else 1 + Max ((\<lambda>d. the (map_of ?lv d)) ` set (dependencies s)))"
      unfolding img[OF s(2)] by (rule s(3))
    then show ?thesis using s(1) def[OF s(2)] by blast
  qed
qed

lemma levels_grow_refl: "levels_ok w lv \<Longrightarrow> levels_grow w lv lv U"
  by (simp add: levels_grow_def)

lemma levels_grow_trans:
  "levels_grow w lv lv1 U \<Longrightarrow> levels_grow w lv1 lv2 V \<Longrightarrow> levels_grow w lv lv2 (U \<union> V)"
proof -
  assume a: "levels_grow w lv lv1 U" and b: "levels_grow w lv1 lv2 V"
  have "map_of lv \<subseteq>\<^sub>m map_of lv2"
    using a b unfolding levels_grow_def by (blast intro: map_le_trans)
  moreover have "dom (map_of lv2) \<subseteq> dom (map_of lv) \<union> (U \<union> V)"
    using a b unfolding levels_grow_def by blast
  ultimately show ?thesis using b unfolding levels_grow_def by simp
qed

lemma levels_grow_mono: "levels_grow w lv lv' U \<Longrightarrow> U \<subseteq> V \<Longrightarrow> levels_grow w lv lv' V"
  unfolding levels_grow_def by auto

lemma levels_grow_keep:
  "levels_grow w lv lv' U \<Longrightarrow> map_of lv d = Some l \<Longrightarrow> map_of lv' d = Some l"
  unfolding levels_grow_def map_le_def by (metis domI)

lemma levels_grow_add:
  assumes ok: "levels_ok w (AList.update sid L lv')" and g: "levels_grow w lv lv' U"
    and n: "map_of lv' sid = None" and u: "insert sid U \<subseteq> V"
  shows "levels_grow w lv (AList.update sid L lv') V"
proof -
  have m: "map_of (AList.update sid L lv') = (map_of lv')(sid \<mapsto> L)" by (simp add: update_conv')
  have "map_of lv' \<subseteq>\<^sub>m map_of (AList.update sid L lv')"
    unfolding m using n by (auto simp: map_le_def)
  then have "map_of lv \<subseteq>\<^sub>m map_of (AList.update sid L lv')"
    using g unfolding levels_grow_def by (blast intro: map_le_trans)
  moreover have "dom (map_of (AList.update sid L lv')) \<subseteq> dom (map_of lv) \<union> V"
    using g u unfolding levels_grow_def m by auto
  ultimately show ?thesis using ok unfolding levels_grow_def by simp
qed

lemma get_level_correct:
  "wf_workflow w \<Longrightarrow> acyclic (dep_rel w) \<Longrightarrow> levels_ok w lv \<Longrightarrow> sid \<in> fst ` set (steps w) \<Longrightarrow>
     card (upstream w sid) \<le> n \<Longrightarrow>
     \<exists>l lv'. get_level n w lv sid = Inr (l, lv') \<and> levels_grow w lv lv' (upstream w sid) \<and>
            map_of lv' sid = Some l"
  and
  "wf_workflow w \<Longrightarrow> acyclic (dep_rel w) \<Longrightarrow> levels_ok w lv \<Longrightarrow> set ds \<subseteq> fst ` set (steps w) \<Longrightarrow>
     \<forall>d\<in>set ds. card (upstream w d) \<le> n \<Longrightarrow>
     \<exists>ls lv'. get_level_deps n w lv ds = Inr (ls, lv') \<and>
            levels_grow w lv lv' (\<Union>d\<in>set ds. upstream w d) \<and>
            ls = map (\<lambda>d. the (map_of lv' d)) ds \<and> (\<forall>d\<in>set ds. map_of lv' d \<noteq> None)"
proof (induction n w lv sid and n w lv ds rule: get_level_get_level_deps.induct)
  case (1 w levels sid)
  have "sid \<in> upstream w sid" by (simp add: upstream_def)
  moreover have "finite (upstream w sid)" using upstream_finite[OF "1.prems"(1,4)] .
  ultimately have "card (upstream w sid) \<noteq> 0" by auto
  then show ?case using "1.prems"(5) by simp
next
  case (2 n w levels sid)
  note wf = "2.prems"(1) and ac = "2.prems"(2) and ok = "2.prems"(3) and key = "2.prems"(4)
    and cd = "2.prems"(5)
  show ?case
  proof (cases "map_of levels sid")
    case (Some l)
    then have "get_level (Suc n) w levels sid = Inr (l, levels)" by simp
    then show ?thesis using Some levels_grow_refl[OF ok] by blast
  next
    case None
    obtain st where st: "map_of (steps w) sid = Some st"
      using key by (metis image_iff map_of_eq_None_iff not_None_eq)
    have self: "sid \<in> upstream w sid" by (simp add: upstream_def)
    show ?thesis
    proof (cases "dependencies st = []")
      case True
      have r: "get_level (Suc n) w levels sid = Inr (0, AList.update sid 0 levels)"
        using None st True by simp
      have o: "levels_ok w (AList.update sid 0 levels)"
        using levels_ok_update[OF ok None st, of 0] True by simp
      have "levels_grow w levels (AList.update sid 0 levels) (upstream w sid)"
        using levels_grow_add[OF o levels_grow_refl[OF ok, of "{}"] None] self by simp
      moreover have "map_of (AList.update sid 0 levels) sid = Some 0" by (simp add: update_conv')
      ultimately show ?thesis using r by blast
    next
      case False
      have dk: "set (dependencies st) \<subseteq> fst ` set (steps w)"
        using wf_deps_keys[OF wf, of sid] st by (simp add: deps_map_def)
      have edge: "(sid, d) \<in> dep_rel w" if "d \<in> set (dependencies st)" for d
        using that st by (simp add: dep_rel_def deps_map_def)
      have cs: "\<forall>d\<in>set (dependencies st). card (upstream w d) \<le> n"
        using upstream_dep(3)[OF wf ac key edge] cd by fastforce
      from "2.IH"[OF None st False wf ac ok dk cs]
      obtain ls lv' where r: "get_level_deps n w levels (dependencies st) = Inr (ls, lv')"
        and g: "levels_grow w levels lv' (\<Union>d\<in>set (dependencies st). upstream w d)"
        and ls: "ls = map (\<lambda>d. the (map_of lv' d)) (dependencies st)"
        and df: "\<forall>d\<in>set (dependencies st). map_of lv' d \<noteq> None"
        by blast
      let ?L = "1 + Max (set ls)"
      have res: "get_level (Suc n) w levels sid = Inr (?L, AList.update sid ?L lv')"
        using None st False r by simp
      have nin: "sid \<notin> (\<Union>d\<in>set (dependencies st). upstream w d)"
        using upstream_dep(2)[OF wf ac key edge] by blast
      have n': "map_of lv' sid = None"
        using g None nin unfolding levels_grow_def by blast
      have ok': "levels_ok w lv'" using g by (simp add: levels_grow_def)
      have Leq: "?L = (if dependencies st = [] then 0
                 else 1 + Max ((\<lambda>d. the (map_of lv' d)) ` set (dependencies st)))"
        using False ls by simp
      have o: "levels_ok w (AList.update sid ?L lv')"
        using levels_ok_update[OF ok' n' st df Leq] .
      have sub: "insert sid (\<Union>d\<in>set (dependencies st). upstream w d) \<subseteq> upstream w sid"
        using upstream_dep(1)[OF wf ac key edge] self by blast
      have "levels_grow w levels (AList.update sid ?L lv') (upstream w sid)"
        using levels_grow_add[OF o g n' sub] .
      moreover have "map_of (AList.update sid ?L lv') sid = Some ?L" by (simp add: update_conv')
      ultimately show ?thesis using res by blast
    qed
  qed
next
  case (3 n w levels)
  then show ?case using levels_grow_refl by simp
next
  case (4 n w levels dep ds)
  note wf = "4.prems"(1) and ac = "4.prems"(2) and ok = "4.prems"(3)
  have dk: "dep \<in> fst ` set (steps w)" "set ds \<subseteq> fst ` set (steps w)"
    using "4.prems"(4) by auto
  have cd: "card (upstream w dep) \<le> n" "\<forall>d\<in>set ds. card (upstream w d) \<le> n"
    using "4.prems"(5) by auto
  from "4.IH"(1)[OF wf ac ok dk(1) cd(1)]
  obtain l lv1 where r1: "get_level n w levels dep = Inr (l, lv1)"
    and g1: "levels_grow w levels lv1 (upstream w dep)" and m1: "map_of lv1 dep = Some l"
    by blast
  have ok1: "levels_ok w lv1" using g1 by (simp add: levels_grow_def)
  from "4.IH"(2)[OF r1 refl wf ac ok1 dk(2) cd(2)]
  obtain ls lv2 where r2: "get_level_deps n w lv1 ds = Inr (ls, lv2)"
    and g2: "levels_grow w lv1 lv2 (\<Union>d\<in>set ds. upstream w d)"
    and ls: "ls = map (\<lambda>d. the (map_of lv2 d)) ds"
    and df: "\<forall>d\<in>set ds. map_of lv2 d \<noteq> None"
    by blast
  have res: "get_level_deps n w levels (dep # ds) = Inr (l # ls, lv2)"
    using r1 r2 by simp
  have m2: "map_of lv2 dep = Some l" using levels_grow_keep[OF g2 m1] .
  have "levels_grow w levels lv2 (upstream w dep \<union> (\<Union>d\<in>set ds. upstream w d))"
    using levels_grow_trans[OF g1 g2] .
  then have "levels_grow w levels lv2 (\<Union>d\<in>set (dep # ds). upstream w d)" by simp
  moreover have "l # ls = map (\<lambda>d. the (map_of lv2 d)) (dep # ds)" using ls m2 by simp
  moreover have "\<forall>d\<in>set (dep # ds). map_of lv2 d \<noteq> None" using df m2 by simp
  ultimately have "get_level_deps n w levels (dep # ds) = Inr (l # ls, lv2) \<and>
            levels_grow w levels lv2 (\<Union>d\<in>set (dep # ds). upstream w d) \<and>
            l # ls = map (\<lambda>d. the (map_of lv2 d)) (dep # ds) \<and>
            (\<forall>d\<in>set (dep # ds). map_of lv2 d \<noteq> None)"
    using res by (intro conjI)
  then show ?case by (intro exI)
qed

lemma levels_loop_correct:
  "wf_workflow w \<Longrightarrow> acyclic (dep_rel w) \<Longrightarrow> levels_ok w lv \<Longrightarrow> set ks \<subseteq> fst ` set (steps w) \<Longrightarrow>
     length (steps w) \<le> n \<Longrightarrow>
     \<exists>lv'. levels_loop n w lv ks = Inr lv' \<and> levels_ok w lv' \<and> map_of lv \<subseteq>\<^sub>m map_of lv' \<and>
           (\<forall>k\<in>set ks. map_of lv' k \<noteq> None)"
proof (induction ks arbitrary: lv)
  case Nil
  then show ?case by simp
next
  case (Cons k ks)
  have key: "k \<in> fst ` set (steps w)" and ks: "set ks \<subseteq> fst ` set (steps w)"
    using Cons.prems(4) by auto
  have "card (upstream w k) \<le> n"
    using upstream_card_keys[OF Cons.prems(1) key] Cons.prems(5) by simp
  from get_level_correct(1)[OF Cons.prems(1,2,3) key this]
  obtain l lv1 where r: "get_level n w lv k = Inr (l, lv1)"
    and g: "levels_grow w lv lv1 (upstream w k)" and m: "map_of lv1 k = Some l"
    by blast
  have ok1: "levels_ok w lv1" and le1: "map_of lv \<subseteq>\<^sub>m map_of lv1"
    using g by (simp_all add: levels_grow_def)
  from Cons.IH[OF Cons.prems(1,2) ok1 ks Cons.prems(5)]
  obtain lv2 where r2: "levels_loop n w lv1 ks = Inr lv2" and ok2: "levels_ok w lv2"
    and le2: "map_of lv1 \<subseteq>\<^sub>m map_of lv2"
    and d2: "\<forall>k\<in>set ks. map_of lv2 k \<noteq> None"
    by blast
  have "levels_loop n w lv (k # ks) = Inr lv2" using r r2 by simp
  moreover have "map_of lv2 k = Some l"
    using le2 m unfolding map_le_def by (metis domI)
  moreover have "map_of lv \<subseteq>\<^sub>m map_of lv2" using le1 le2 by (rule map_le_trans)
  ultimately show ?case using ok2 d2 by auto
qed

lemma calculate_levels_correct:
  assumes wf: "wf_workflow w" and ac: "acyclic (dep_rel w)" and n: "length (steps w) \<le> n"
  shows "\<exists>lv. calculate_levels n w = Inr lv \<and>
          (\<forall>k. map_of (steps w) k = None \<longrightarrow> map_of lv k = None) \<and>
          (\<forall>k s. map_of (steps w) k = Some s \<longrightarrow>
               (\<forall>d\<in>set (dependencies s). map_of lv d \<noteq> None) \<and>
               map_of lv k = Some (if dependencies s = [] then 0
                  else 1 + Max ((\<lambda>d. the (map_of lv d)) ` set (dependencies s))))"
proof -
  have ok0: "levels_ok w []" by (simp add: levels_ok_def)
  from levels_loop_correct[OF wf ac ok0 _ n, of "map fst (steps w)"]
  obtain lv where r: "calculate_levels n w = Inr lv" and ok: "levels_ok w lv"
    and d: "\<forall>k\<in>set (map fst (steps w)). map_of lv k \<noteq> None"
    unfolding calculate_levels_def by auto
  have a: "map_of lv k = None" if "map_of (steps w) k = None" for k
  proof (rule ccontr)
    assume "map_of lv k \<noteq> None"
    then obtain l where "map_of lv k = Some l" by auto
    then show False using ok that unfolding levels_ok_def by fastforce
  qed
  have b: "(\<forall>d\<in>set (dependencies s). map_of lv d \<noteq> None) \<and>
               map_of lv k = Some (if dependencies s = [] then 0
                  else 1 + Max ((\<lambda>d. the (map_of lv d)) ` set (dependencies s)))"
    if s: "map_of (steps w) k = Some s" for k s
  proof -
    have "k \<in> set (map fst (steps w))" using s by (auto dest!: map_of_SomeD intro: rev_image_eqI)
    then obtain l where l: "map_of lv k = Some l" using d by auto
    then obtain s' where s': "map_of (steps w) k = Some s'"
      "\<forall>d\<in>set (dependencies s'). map_of lv d \<noteq> None"
      "l = (if dependencies s' = [] then 0
            else 1 + Max ((\<lambda>d. the (map_of lv d)) ` set (dependencies s')))"
      using ok unfolding levels_ok_def by blast
    have "s' = s" using s s'(1) by simp
    then show ?thesis using s'(2,3) l by simp
  qed
  show ?thesis using r a b by blast
qed

text \<open>
  Claim C8, as amended. From a non-empty list of ready steps that all have a level, the
  breadth-first strategy returns one step: the first step of the list among those of
  least level. The depth-first strategy returns the first among those of greatest
  level. From the empty list both return nothing, and no call returns more than one
  step. The result is thus fixed by the levels and the order of the ready steps. On a
  well-formed acyclic workflow with no more steps than the recursion limit allows,
  \<open>_calculate_levels\<close> gives every step a level, 0 for a step without dependencies and
  otherwise one more than the greatest level of its dependencies.
\<close>

theorem strategy_selection:
  "(ready \<noteq> [] \<and> (\<forall>k\<in>set ready. map_of lv k \<noteq> None)
    \<longrightarrow> (\<exists>pre x post. ready = pre @ x # post \<and>
           get_next_steps (BreadthFirstStrategy lv) ready = Inr [x] \<and>
           (\<forall>y\<in>set pre. the (map_of lv x) < the (map_of lv y)) \<and>
           (\<forall>y\<in>set post. the (map_of lv x) \<le> the (map_of lv y))) \<and>
        (\<exists>pre x post. ready = pre @ x # post \<and>
           get_next_steps (DepthFirstStrategy lv) ready = Inr [x] \<and>
           (\<forall>y\<in>set pre. the (map_of lv y) < the (map_of lv x)) \<and>
           (\<forall>y\<in>set post. the (map_of lv y) \<le> the (map_of lv x))))
   \<and> get_next_steps strat [] = Inr []
   \<and> (get_next_steps strat ready = Inr xs \<longrightarrow> length xs \<le> 1)
   \<and> (wf_workflow w \<and> acyclic (dep_rel w) \<and> length (steps w) \<le> n
      \<longrightarrow> (\<exists>lv. calculate_levels n w = Inr lv \<and>
             (\<forall>k. map_of (steps w) k = None \<longrightarrow> map_of lv k = None) \<and>
             (\<forall>k s. map_of (steps w) k = Some s \<longrightarrow>
                  (\<forall>d\<in>set (dependencies s). map_of lv d \<noteq> None) \<and>
                  map_of lv k = Some (if dependencies s = [] then 0
                     else 1 + Max ((\<lambda>d. the (map_of lv d)) ` set (dependencies s))))))"
proof (intro conjI impI)
  assume a: "ready \<noteq> [] \<and> (\<forall>k\<in>set ready. map_of lv k \<noteq> None)"
  then have ne: "ready \<noteq> []" and df: "\<forall>k\<in>set ready. map_of lv k \<noteq> None" by simp_all
  show "\<exists>pre x post. ready = pre @ x # post \<and>
           get_next_steps (BreadthFirstStrategy lv) ready = Inr [x] \<and>
           (\<forall>y\<in>set pre. the (map_of lv x) < the (map_of lv y)) \<and>
           (\<forall>y\<in>set post. the (map_of lv x) \<le> the (map_of lv y))"
    using get_next_steps_first(1)[OF ne df] .
  show "\<exists>pre x post. ready = pre @ x # post \<and>
           get_next_steps (DepthFirstStrategy lv) ready = Inr [x] \<and>
           (\<forall>y\<in>set pre. the (map_of lv y) < the (map_of lv x)) \<and>
           (\<forall>y\<in>set post. the (map_of lv y) \<le> the (map_of lv x))"
    using get_next_steps_first(2)[OF ne df] .
next
  show "get_next_steps strat [] = Inr []" by (cases strat) simp_all
next
  assume "get_next_steps strat ready = Inr xs"
  then show "length xs \<le> 1" by (rule get_next_steps_length)
next
  assume "wf_workflow w \<and> acyclic (dep_rel w) \<and> length (steps w) \<le> n"
  then show "\<exists>lv. calculate_levels n w = Inr lv \<and>
             (\<forall>k. map_of (steps w) k = None \<longrightarrow> map_of lv k = None) \<and>
             (\<forall>k s. map_of (steps w) k = Some s \<longrightarrow>
                  (\<forall>d\<in>set (dependencies s). map_of lv d \<noteq> None) \<and>
                  map_of lv k = Some (if dependencies s = [] then 0
                     else 1 + Max ((\<lambda>d. the (map_of lv d)) ` set (dependencies s))))"
    using calculate_levels_correct[of w n] by blast
qed

text \<open>
  Claim C8 as stated fails where it says that the same ready set and the same levels
  give the same step. In a breadth-first run of \<open>tie_workflow\<close> the queue is first
  \<open>A\<close>, \<open>B\<close>; \<open>A\<close> is chosen, fails and is queued again behind \<open>B\<close>. The ready set and
  the levels are the same as before, and the strategy now returns \<open>B\<close>.
\<close>

theorem tie_break_counterexample:
  "calculate_levels 1000 tie_workflow = Inr [(''A'', 0), (''B'', 0)] \<and>
   update_ready_queue (new_engine tie_workflow) = Inr tie_first \<and>
   sequential_body tie_run (Some (BreadthFirstStrategy [(''A'', 0), (''B'', 0)])) tie_first
     = Inr (True, tie_second) \<and>
   ready_queue tie_first = [''A'', ''B''] \<and> ready_queue tie_second = [''B'', ''A''] \<and>
   set (ready_queue tie_first) = set (ready_queue tie_second) \<and>
   get_next_steps (BreadthFirstStrategy [(''A'', 0), (''B'', 0)]) (ready_queue tie_first)
     = Inr [''A''] \<and>
   get_next_steps (BreadthFirstStrategy [(''A'', 0), (''B'', 0)]) (ready_queue tie_second)
     = Inr [''B'']"
proof -
  have "calculate_levels 1000 tie_workflow = Inr [(''A'', 0), (''B'', 0)]" by code_simp
  moreover have "update_ready_queue (new_engine tie_workflow) = Inr tie_first" by code_simp
  moreover have "sequential_body tie_run (Some (BreadthFirstStrategy [(''A'', 0), (''B'', 0)])) tie_first
     = Inr (True, tie_second)" by code_simp
  moreover have "ready_queue tie_first = [''A'', ''B'']" "ready_queue tie_second = [''B'', ''A'']"
    by (simp_all add: tie_first_def tie_second_def tie_state_def)
  moreover have "set (ready_queue tie_first) = set (ready_queue tie_second)"
    by (auto simp: tie_first_def tie_second_def tie_state_def)
  moreover have "get_next_steps (BreadthFirstStrategy [(''A'', 0), (''B'', 0)]) (ready_queue tie_first)
     = Inr [''A'']" by code_simp
  moreover have "get_next_steps (BreadthFirstStrategy [(''A'', 0), (''B'', 0)]) (ready_queue tie_second)
     = Inr [''B'']" by code_simp
  ultimately show ?thesis by blast
qed

text \<open>
  The amended claim on the first example, with the ready steps \<open>C\<close>, \<open>D\<close>, \<open>B\<close> of
  levels 1, 2, 1: breadth-first returns \<open>C\<close> and depth-first \<open>D\<close>.
\<close>

theorem strategy_selection_witness:
  "[''C'', ''D'', ''B''] \<noteq> [] \<and>
   map_of [(''A'', 0), (''B'', 1), (''C'', 1), (''D'', 2::nat)] ''C'' = Some 1 \<and>
   map_of [(''A'', 0), (''B'', 1), (''C'', 1), (''D'', 2::nat)] ''D'' = Some 2 \<and>
   map_of [(''A'', 0), (''B'', 1), (''C'', 1), (''D'', 2::nat)] ''B'' = Some 1 \<and>
   (\<exists>pre x post. [''C'', ''D'', ''B''] = pre @ x # post \<and>
       get_next_steps (BreadthFirstStrategy [(''A'', 0), (''B'', 1), (''C'', 1), (''D'', 2)])
         [''C'', ''D'', ''B''] = Inr [x]) \<and>
   get_next_steps (BreadthFirstStrategy [(''A'', 0), (''B'', 1), (''C'', 1), (''D'', 2)])
     [''C'', ''D'', ''B''] = Inr [''C''] \<and>
   get_next_steps (DepthFirstStrategy [(''A'', 0), (''B'', 1), (''C'', 1), (''D'', 2)])
     [''C'', ''D'', ''B''] = Inr [''D''] \<and>
   length [''C''] \<le> 1 \<and>
   wf_workflow ex_workflow \<and> acyclic (dep_rel ex_workflow) \<and> length (steps ex_workflow) \<le> 1000 \<and>
   (\<exists>lv. calculate_levels 1000 ex_workflow = Inr lv \<and> map_of lv ''Q'' = None) \<and>
   calculate_levels 1000 ex_workflow = Inr [(''A'', 0), (''B'', 1), (''C'', 1), (''D'', 2)]"
proof -
  let ?lv = "[(''A'', 0), (''B'', 1), (''C'', 1), (''D'', 2::nat)]"
  let ?r = "[''C'', ''D'', ''B'']"
  have h1: "?r \<noteq> []" by simp
  have h2: "map_of ?lv ''C'' = Some 1" "map_of ?lv ''D'' = Some 2" "map_of ?lv ''B'' = Some 1"
    by simp_all
  have h3: "\<forall>k\<in>set ?r. map_of ?lv k \<noteq> None" by simp
  have h4: "get_next_steps (BreadthFirstStrategy ?lv) ?r = Inr [''C'']" by code_simp
  have h5: "get_next_steps (DepthFirstStrategy ?lv) ?r = Inr [''D'']" by code_simp
  have h6: "length (steps ex_workflow) \<le> 1000" by (simp add: ex_steps)
  have h7: "map_of (steps ex_workflow) ''Q'' = None" by (simp add: ex_steps)
  have h8: "calculate_levels 1000 ex_workflow = Inr ?lv" by code_simp
  note t = strategy_selection[where ready = ?r and lv = ?lv and w = ex_workflow and n = 1000
      and strat = "BreadthFirstStrategy ?lv" and xs = "[''C'']"]
  have c1: "\<exists>pre x post. ?r = pre @ x # post \<and>
       get_next_steps (BreadthFirstStrategy ?lv) ?r = Inr [x]"
    using t h1 h3 by blast
  have c2: "length [''C''] \<le> 1" using t h4 by blast
  have c3: "\<exists>lv. calculate_levels 1000 ex_workflow = Inr lv \<and> map_of lv ''Q'' = None"
    using t ex_wf ex_acyclic h6 h7 by blast
  show ?thesis
    using h1 h2 c1 h4 h5 c2 ex_wf ex_acyclic h6 c3 h8 by blast
qed

end
